theory Spec2Isabelle
  imports Main
begin

section \<open>The regular expressions of Python's \<open>re\<close>, as far as the generator uses them\<close>

text \<open>
  \<^verbatim>\<open>tools/generate-TorControlCommands.py\<close> calls \<^verbatim>\<open>re.search\<close> and \<^verbatim>\<open>re.findall\<close> with
  two fixed patterns. The patterns are kept as data and run by a backtracking matcher that
  explores the alternatives in the order of Python's engine: a greedy repetition first tries
  one more iteration, an alternation first tries its left branch.

  A text is a \<^typ>\<open>string\<close>: the model covers the texts whose code points are below 256.
\<close>

datatype regex =
    Eps
  | Chr char
  | Set bool "(char \<times> char) list"
  | Seq regex regex
  | Alt regex regex
  | Star regex
  | Group nat regex

type_synonym groups = "(nat \<times> string) list"

definition in_ranges :: "(char \<times> char) list \<Rightarrow> char \<Rightarrow> bool" where
  "in_ranges rs c =
     list_ex (\<lambda>(lo, hi). (of_char lo :: nat) \<le> of_char c \<and> (of_char c :: nat) \<le> of_char hi) rs"

text \<open>
  \<open>backtrack r (s, g)\<close> lists every way in which \<open>r\<close> matches a prefix of \<open>s\<close>, in the order
  in which the engine tries them: each result is the input left after the match with the
  groups captured so far (the latest capture first). The engine's match is the head of the list.
  \<open>Set neg rs\<close> is the class \<^verbatim>\<open>[...]\<close> of the ranges \<open>rs\<close>, negated when \<open>neg\<close> holds.
\<close>

function backtrack :: "regex \<Rightarrow> string \<times> groups \<Rightarrow> (string \<times> groups) list" where
  "backtrack Eps (s, g) = [(s, g)]"
| "backtrack (Chr c) (s, g) =
     (case s of [] \<Rightarrow> [] | x # t \<Rightarrow> if x = c then [(t, g)] else [])"
| "backtrack (Set neg rs) (s, g) =
     (case s of [] \<Rightarrow> [] | x # t \<Rightarrow> if in_ranges rs x \<noteq> neg then [(t, g)] else [])"
| "backtrack (Seq a b) (s, g) = concat (map (backtrack b) (backtrack a (s, g)))"
| "backtrack (Alt a b) (s, g) = backtrack a (s, g) @ backtrack b (s, g)"
| "backtrack (Star r) (s, g) =
     concat (map (backtrack (Star r))
       (filter (\<lambda>(s', g'). length s' < length s) (backtrack r (s, g)))) @ [(s, g)]"
| "backtrack (Group i r) (s, g) =
     map (\<lambda>(s', g'). (s', (i, take (length s - length s') s) # g')) (backtrack r (s, g))"
  by pat_completeness auto
termination
  by (relation "measures [\<lambda>(r, s, g). size r, \<lambda>(r, s, g). length s]") auto

text \<open>The equation of \<open>Star\<close> unfolds for ever: it is used by hand.\<close>

lemmas backtrack_Star = backtrack.simps(6)

declare backtrack.simps(6) [simp del]

definition plus :: "regex \<Rightarrow> regex" where
  "plus r = Seq r (Star r)"

definition literal :: "string \<Rightarrow> regex" where
  "literal w = foldr (\<lambda>c r. Seq (Chr c) r) w Eps"

definition seq_list :: "regex list \<Rightarrow> regex" where
  "seq_list rs = foldr Seq rs Eps"

text \<open>The classes \<^verbatim>\<open>\s\<close> (of a \<^verbatim>\<open>str\<close> pattern, on code points below 256), \<^verbatim>\<open>.\<close> (without
  \<^verbatim>\<open>re.DOTALL\<close>), \<^verbatim>\<open>[^}]\<close> and \<^verbatim>\<open>[a-zA-Z0-9_]\<close>.\<close>

definition space_ranges :: "(char \<times> char) list" where
  "space_ranges = [(CHR 0x09, CHR 0x0D), (CHR 0x1C, CHR 0x20), (CHR 0x85, CHR 0x85), (CHR 0xA0, CHR 0xA0)]"

definition white :: regex where
  "white = Set False space_ranges"

definition dot :: regex where
  "dot = Set True [(CHR ''\<newline>'', CHR ''\<newline>'')]"

definition not_brace :: regex where
  "not_brace = Set True [(CHR ''}'', CHR ''}'')]"

definition ident_ranges :: "(char \<times> char) list" where
  "ident_ranges = [(CHR ''a'', CHR ''z''), (CHR ''A'', CHR ''Z''), (CHR ''0'', CHR ''9''), (CHR ''_'', CHR ''_'')]"

definition ident :: regex where
  "ident = Set False ident_ranges"

text \<open>
  A match is the input from where the match starts, the input left after it, and its groups.
  \<^verbatim>\<open>re.search\<close> tries every start position from left to right, the end of the text included.
\<close>

type_synonym match = "string \<times> string \<times> groups"

fun re_search :: "regex \<Rightarrow> string \<Rightarrow> match option" where
  "re_search r [] = (case backtrack r ([], []) of [] \<Rightarrow> None | (e, g) # _ \<Rightarrow> Some ([], e, g))"
| "re_search r (c # s) =
     (case backtrack r (c # s, []) of [] \<Rightarrow> re_search r s | (e, g) # _ \<Rightarrow> Some (c # s, e, g))"

definition group :: "match \<Rightarrow> nat \<Rightarrow> string option" where
  "group m i = (case m of (b, e, g) \<Rightarrow> map_of g i)"

lemma backtrack_length:
  "(s', g') \<in> set (backtrack r (s, g)) \<Longrightarrow> length s' \<le> length s"
proof (induction r "(s, g)" arbitrary: s g s' g' rule: backtrack.induct)
  case (1 s g)
  then show ?case by simp
next
  case (2 c s g)
  then show ?case by (auto split: list.splits if_splits)
next
  case (3 neg rs s g)
  then show ?case by (auto split: list.splits if_splits)
next
  case (4 a b s g)
  from "4.prems" obtain s1 g1 where
    m1: "(s1, g1) \<in> set (backtrack a (s, g))" and m2: "(s', g') \<in> set (backtrack b (s1, g1))"
    by auto
  from "4.hyps"(1)[OF m1] "4.hyps"(2)[OF m1 m2] show ?case by simp
next
  case (5 a b s g)
  then show ?case by auto
next
  case (6 r s g)
  from "6.prems" consider
    (stop) "(s', g') = (s, g)"
  | (more) s1 g1 where "(s1, g1) \<in> set (backtrack r (s, g))" "length s1 < length s"
      "(s', g') \<in> set (backtrack (Star r) (s1, g1))"
    by (subst (asm) backtrack_Star) auto
  then show ?case
  proof cases
    case stop
    then show ?thesis by simp
  next
    case more
    have "(s1, g1) \<in> set (filter (\<lambda>(s', g'). length s' < length s) (backtrack r (s, g)))"
      using more(1,2) by simp
    from "6.hyps"(2)[OF this more(3)] more(2) show ?thesis by simp
  qed
next
  case (7 i r s g)
  then show ?case by auto
qed

lemma re_search_length:
  "re_search r s = Some (b, e, g) \<Longrightarrow> length e \<le> length b \<and> length b \<le> length s"
proof (induction s)
  case Nil
  then obtain ms where "backtrack r ([], []) = (e, g) # ms" "b = []"
    by (auto split: list.splits)
  then have "(e, g) \<in> set (backtrack r ([], []))" by simp
  from backtrack_length[OF this] \<open>b = []\<close> show ?case by simp
next
  case (Cons c s)
  show ?case
  proof (cases "backtrack r (c # s, [])")
    case Nil
    with Cons show ?thesis by simp
  next
    case (Cons m ms)
    with Cons.prems have "m = (e, g)" "b = c # s" by (auto split: prod.splits)
    with Cons have "(e, g) \<in> set (backtrack r (c # s, []))" by simp
    from backtrack_length[OF this] \<open>b = c # s\<close> show ?thesis by simp
  qed
qed

text \<open>
  \<^verbatim>\<open>re.findall\<close> searches again from the end of each match and lists the groups of the
  matches; after an empty match it moves on by one character (the pattern of the script has
  no empty match: each of its matches holds a tag). The pattern it is called with
  has two groups, so each item is the pair of their texts (the empty text for a group that
  took no part).
\<close>

function findall_matches :: "regex \<Rightarrow> string \<Rightarrow> match list" where
  "findall_matches r s =
     (case re_search r s of
        None \<Rightarrow> []
      | Some (b, e, g) \<Rightarrow>
          (b, e, g) #
            (if length e < length b then findall_matches r e
             else case e of [] \<Rightarrow> [] | _ # e' \<Rightarrow> findall_matches r e'))"
  by pat_completeness auto
termination
proof (relation "measure (\<lambda>(r, s). length s)")
  show "wf (measure (\<lambda>(r, s). length s))" by simp
next
  fix r s m b p e g
  assume "re_search r s = Some m" "(b, p) = m" "(e, g) = p" "length e < length b"
  then have "re_search r s = Some (b, e, g)" by simp
  from re_search_length[OF this] \<open>length e < length b\<close>
  show "((r, e), (r, s)) \<in> measure (\<lambda>(r, s). length s)" by simp
next
  fix r s m b p e g c e'
  assume "re_search r s = Some m" "(b, p) = m" "(e, g) = p" "e = c # e'"
  then have "re_search r s = Some (b, e, g)" by simp
  from re_search_length[OF this] \<open>e = c # e'\<close>
  show "((r, e'), (r, s)) \<in> measure (\<lambda>(r, s). length s)" by simp
qed

declare findall_matches.simps [simp del]

definition group_text :: "match \<Rightarrow> nat \<Rightarrow> string" where
  "group_text m i = (case group m i of None \<Rightarrow> [] | Some x \<Rightarrow> x)"

definition re_findall2 :: "regex \<Rightarrow> string \<Rightarrow> (string \<times> string) list" where
  "re_findall2 r s = map (\<lambda>m. (group_text m 1, group_text m 2)) (findall_matches r s)"

section \<open>The generator\<close>

text \<open>\<^verbatim>\<open>str.rstrip()\<close> removes the trailing whitespace, the characters of \<^verbatim>\<open>str.isspace\<close>.\<close>

definition isspace :: "char \<Rightarrow> bool" where
  "isspace c = in_ranges space_ranges c"

definition rstrip :: "string \<Rightarrow> string" where
  "rstrip s = rev (dropWhile isspace (rev s))"

text \<open>
  \<^verbatim>\<open>str.upper()\<close>. The generator applies it to the text of the second group only, which
  consists of characters of \<^verbatim>\<open>[a-zA-Z0-9_]\<close>: there \<^verbatim>\<open>upper\<close> maps a lower-case letter to
  its capital and keeps every other character.
\<close>

definition upper_char :: "char \<Rightarrow> char" where
  "upper_char c =
     (if (of_char (CHR ''a'') :: nat) \<le> of_char c \<and> (of_char c :: nat) \<le> of_char (CHR ''z'')
      then char_of (of_char c - (32 :: nat)) else c)"

definition upper :: "string \<Rightarrow> string" where
  "upper s = map upper_char s"

text \<open>The two patterns of the script.\<close>

definition table_pattern :: regex where
  "table_pattern =
     seq_list [literal ''control_cmd_def_t CONTROL_COMMANDS[]'', Star white, Chr (CHR ''=''),
       Star white, Chr (CHR ''{''), Star (Chr (CHR ''\<newline>'')), Group 1 (plus not_brace),
       Chr (CHR ''}'')]"

definition entry_pattern :: regex where
  "entry_pattern =
     seq_list [Star dot,
       Group 1 (Alt (literal ''MULTLINE'') (Alt (literal ''OBSOLETE'') (literal ''ONE_LINE''))),
       Chr (CHR ''(''), Group 2 (plus ident), Star dot]"

text \<open>
  The module's variables (\<open>output_str\<close> stands for \<^verbatim>\<open>output\<close>), the errors a run can end
  with, and its surroundings: the path in \<^verbatim>\<open>__file__\<close> and the files that can be opened, each with
  the text that \<^verbatim>\<open>fp.read()\<close> returns (a path that cannot be opened has no text).
  \<^verbatim>\<open>open\<close> raises \<^verbatim>\<open>OSError\<close>, \<^verbatim>\<open>fp.read()\<close> raises \<^verbatim>\<open>UnicodeDecodeError\<close> when the bytes of the
  file are no text in the encoding of the file object, \<^verbatim>\<open>m.group(1)\<close> raises \<^verbatim>\<open>AttributeError\<close>
  when \<^verbatim>\<open>m\<close> is \<^verbatim>\<open>None\<close>, and \<^verbatim>\<open>print\<close> raises \<^verbatim>\<open>UnicodeEncodeError\<close> when the standard output
  cannot encode a character of the text.
\<close>

record state =
  output_str :: string
  commands :: "string list"
  command_types :: "(string \<times> string) list"

datatype error = OSError | UnicodeDecodeError | AttributeError | UnicodeEncodeError

record env =
  script_file :: string
  files :: "string \<rightharpoonup> string"

definition source_path :: string where
  "source_path = ''../tor/src/feature/control/control_cmd.c''"

definition header :: "string \<Rightarrow> string" where
  "header file = ''\<newline>    // generated by '' @ file @ ''\<newline>''"

text \<open>The body of the first loop: one item of \<^verbatim>\<open>re.findall\<close> is appended to both lists.\<close>

definition record_command :: "state \<Rightarrow> string \<times> string \<Rightarrow> state" where
  "record_command st tc =
     (case tc of (type, command) \<Rightarrow>
        st\<lparr>commands := commands st @ [upper command],
           command_types := command_types st @ [(type, upper command)]\<rparr>)"

text \<open>The body of the second loop: the lines of one entry are appended to \<^verbatim>\<open>output\<close>.\<close>

definition constant_line :: "string \<Rightarrow> string \<Rightarrow> string" where
  "constant_line name val = ''    public static final String '' @ name @ '' = \"'' @ val @ ''\";\<newline>''"

definition emit :: "state \<Rightarrow> string \<times> string \<Rightarrow> state" where
  "emit st tc =
     (case tc of (type, command) \<Rightarrow>
        let st = (if type = ''OBSOLETE''
                  then st\<lparr>output_str := output_str st @ ''    @Deprecated\<newline>''\<rparr> else st)
        in if type = ''MULTLINE''
           then st\<lparr>output_str := output_str st @ constant_line command (''+'' @ command)\<rparr>
           else st\<lparr>output_str := output_str st @ constant_line command command\<rparr>)"

text \<open>
  The script, from its first line to its last: the result is the exception that ended the
  run, if any, and the text written to the standard output. \<^verbatim>\<open>print\<close> is the last statement
  and the only one that writes.
\<close>

definition main :: "env \<Rightarrow> error option \<times> string" where
  "main e =
     (let st = \<lparr>output_str = header (script_file e), commands = [], command_types = []\<rparr> in
      case files e source_path of
        None \<Rightarrow> (Some OSError, [])
      | Some text \<Rightarrow>
          (case re_search table_pattern text of
             None \<Rightarrow> (Some AttributeError, [])
           | Some m \<Rightarrow>
               (case group m 1 of
                  None \<Rightarrow> (Some AttributeError, [])
                | Some g1 \<Rightarrow>
                    let control_cmd_def_t = rstrip g1;
                        st = foldl record_command st (re_findall2 entry_pattern control_cmd_def_t);
                        st = foldl emit st (command_types st)
                    in (None, output_str st @ ''\<newline>''))))"

text \<open>
  Two values the claims speak of: the text of the variable \<^verbatim>\<open>control_cmd_def_t\<close> for a given
  source text (none when the run stops before the assignment ends), and the text that one
  pass of the second loop appends to \<^verbatim>\<open>output\<close>.
\<close>

definition control_cmd_def_t :: "string \<Rightarrow> string option" where
  "control_cmd_def_t text =
     (case re_search table_pattern text of
        None \<Rightarrow> None
      | Some m \<Rightarrow> (case group m 1 of None \<Rightarrow> None | Some g1 \<Rightarrow> Some (rstrip g1)))"

definition emitted :: "string \<times> string \<Rightarrow> string" where
  "emitted tc = output_str (emit \<lparr>output_str = [], commands = [], command_types = []\<rparr> tc)"

text \<open>\<open>occurs_in w s\<close>: the text \<open>w\<close> occurs somewhere in the text \<open>s\<close>.\<close>

fun occurs_in :: "string \<Rightarrow> string \<Rightarrow> bool" where
  "occurs_in w [] = (w = [])"
| "occurs_in w (c # s) = (take (length w) (c # s) = w \<or> occurs_in w s)"

text \<open>
  Concrete runs: the surroundings in which the script is at \<open>file\<close> and the source file has
  the text \<open>src\<close> (or cannot be opened), and a source file with a table of three entries.
\<close>

definition run_env :: "string \<Rightarrow> string option \<Rightarrow> env" where
  "run_env file src = \<lparr>script_file = file, files = (\<lambda>p. if p = source_path then src else None)\<rparr>"

definition scenario_source :: string where
  "scenario_source =
     ''static const control_cmd_def_t CONTROL_COMMANDS[] =\<newline>{\<newline>  ONE_LINE(GETINFO),\<newline>  MULTLINE(GETCONF),\<newline>  OBSOLETE(POSTDESCRIPTOR),\<newline>};\<newline>''"

definition scenario_table :: string where
  "scenario_table = ''  ONE_LINE(GETINFO),\<newline>  MULTLINE(GETCONF),\<newline>  OBSOLETE(POSTDESCRIPTOR),''"

text \<open>
  The script opens the source file in text mode and prints to the standard output. The bytes
  of the file become the text of \<^verbatim>\<open>fp.read()\<close> by the encoding of the file object, and the text of
  \<^verbatim>\<open>output\<close> becomes the bytes of the standard output by the encoding of that stream. The script
  chooses neither (\<^verbatim>\<open>open\<close> gets no \<^verbatim>\<open>encoding\<close> argument): both belong to the surroundings of
  a run, like the path in \<^verbatim>\<open>__file__\<close> and the contents of the files. A byte is a \<^typ>\<open>char\<close>.

  \<open>decode w bs\<close> is the text that \<^verbatim>\<open>fp.read()\<close> returns for a file of the bytes \<open>bs\<close>, none when
  it raises \<^verbatim>\<open>UnicodeDecodeError\<close>; \<open>encode w s\<close> is what \<^verbatim>\<open>print\<close> writes for the text \<open>s\<close>, none when
  it raises \<^verbatim>\<open>UnicodeEncodeError\<close>.
\<close>

type_synonym bytes = "char list"

record world =
  script :: string
  file_bytes :: "string \<rightharpoonup> bytes"
  decode :: "bytes \<Rightarrow> string option"
  encode :: "string \<Rightarrow> bytes option"

text \<open>
  The run up to the call of \<^verbatim>\<open>print\<close>: the exception that ended it, or the text handed to
  \<^verbatim>\<open>print\<close>.
\<close>

definition output_text :: "world \<Rightarrow> error option \<times> string" where
  "output_text w =
     (case file_bytes w source_path of
        None \<Rightarrow> (Some OSError, [])
      | Some bs \<Rightarrow>
          (case decode w bs of
             None \<Rightarrow> (Some UnicodeDecodeError, [])
           | Some text \<Rightarrow> main (run_env (script w) (Some text))))"

text \<open>
  The whole run: the exception that ended it, if any, and the bytes written to the standard
  output. The stream encodes a text before it writes any of it, so a text that it cannot
  encode leaves the output empty.
\<close>

definition run :: "world \<Rightarrow> error option \<times> bytes" where
  "run w =
     (case output_text w of
        (Some err, out) \<Rightarrow> (Some err, [])
      | (None, out) \<Rightarrow>
          (case encode w out of
             None \<Rightarrow> (Some UnicodeEncodeError, [])
           | Some bs \<Rightarrow> (None, bs)))"

text \<open>
  Two encodings in which every text of the model can be written down: \<^verbatim>\<open>latin-1\<close>, where a byte
  is the code point of its character, and \<^verbatim>\<open>ascii\<close>, which knows the bytes below 128 only. A
  file object opened as the script does it hands out \<^verbatim>\<open>\r\n\<close> and \<^verbatim>\<open>\r\<close> as \<^verbatim>\<open>\n\<close>; the standard
  output (of a POSIX system) writes \<^verbatim>\<open>\n\<close> as it is.
\<close>

fun universal_newlines :: "string \<Rightarrow> string" where
  "universal_newlines [] = []"
| "universal_newlines [c] = (if c = CHR 0x0D then [CHR ''\<newline>''] else [c])"
| "universal_newlines (c # d # s) =
     (if c = CHR 0x0D
      then CHR ''\<newline>'' # (if d = CHR ''\<newline>'' then universal_newlines s else universal_newlines (d # s))
      else c # universal_newlines (d # s))"

definition is_ascii :: "char \<Rightarrow> bool" where
  "is_ascii c = ((of_char c :: nat) < 128)"

definition decode_latin1 :: "bytes \<Rightarrow> string option" where
  "decode_latin1 bs = Some (universal_newlines bs)"

definition decode_ascii :: "bytes \<Rightarrow> string option" where
  "decode_ascii bs = (if list_all is_ascii bs then Some (universal_newlines bs) else None)"

definition encode_latin1 :: "string \<Rightarrow> bytes option" where
  "encode_latin1 s = Some s"

definition encode_ascii :: "string \<Rightarrow> bytes option" where
  "encode_ascii s = (if list_all is_ascii s then Some s else None)"

text \<open>
  Concrete runs on bytes: the surroundings in which the script is at \<open>file\<close>, the source file
  holds the bytes \<open>bs\<close> and the two streams work by \<open>dec\<close> and \<open>enc\<close>; a script path and a source
  file with the byte \<^verbatim>\<open>0xE9\<close> (the table of the source file is the one of \<^const>\<open>scenario_source\<close>,
  after a comment); and the text printed for that table by the script at \<open>file\<close>.
\<close>

definition machine ::
  "string \<Rightarrow> bytes \<Rightarrow> (bytes \<Rightarrow> string option) \<Rightarrow> (string \<Rightarrow> bytes option) \<Rightarrow> world" where
  "machine file bs dec enc =
     \<lparr>script = file, file_bytes = (\<lambda>p. if p = source_path then Some bs else None),
      decode = dec, encode = enc\<rparr>"

definition accented_path :: string where
  "accented_path = ''caf'' @ [CHR 0xE9] @ ''/gen.py''"

definition accented_source :: bytes where
  "accented_source = ''/* caf'' @ [CHR 0xE9] @ '' */\<newline>'' @ scenario_source"

definition scenario_output :: "string \<Rightarrow> string" where
  "scenario_output file =
     ''\<newline>    // generated by '' @ file @ ''\<newline>'' @
     ''    public static final String GETINFO = \"GETINFO\";\<newline>'' @
     ''    public static final String GETCONF = \"+GETCONF\";\<newline>'' @
     ''    @Deprecated\<newline>'' @
     ''    public static final String POSTDESCRIPTOR = \"POSTDESCRIPTOR\";\<newline>'' @
     ''\<newline>''"

text \<open>A pattern that can never consume a newline: then a match never crosses the end of a line.\<close>

fun no_newline :: "regex \<Rightarrow> bool" where
  "no_newline Eps = True"
| "no_newline (Chr c) = (c \<noteq> CHR ''\<newline>'')"
| "no_newline (Set neg rs) = (in_ranges rs (CHR ''\<newline>'') = neg)"
| "no_newline (Seq a b) = (no_newline a \<and> no_newline b)"
| "no_newline (Alt a b) = (no_newline a \<and> no_newline b)"
| "no_newline (Star r) = no_newline r"
| "no_newline (Group i r) = no_newline r"

text \<open>A result of the matcher and a match, seen again in a longer text: the same, with the text \<open>t\<close>
  after it.\<close>

definition extend :: "string \<Rightarrow> string \<times> groups \<Rightarrow> string \<times> groups" where
  "extend t sg = (case sg of (s, g) \<Rightarrow> (s @ t, g))"

definition extend_match :: "string \<Rightarrow> match \<Rightarrow> match" where
  "extend_match t m = (case m of (b, e, g) \<Rightarrow> (b @ t, e @ t, g))"

text \<open>\<open>is_suffix t s\<close>: the text \<open>t\<close> is an end of \<open>s\<close>, so \<open>t\<close> is the part of \<open>s\<close> from some position on.
  \<open>in_order s ms\<close>: the matches \<open>ms\<close> lie in \<open>s\<close> one after the other, each starting where the one
  before it ended or later.\<close>

definition is_suffix :: "string \<Rightarrow> string \<Rightarrow> bool" where
  "is_suffix t s = (length t \<le> length s \<and> drop (length s - length t) s = t)"

fun in_order :: "string \<Rightarrow> match list \<Rightarrow> bool" where
  "in_order s [] = True"
| "in_order s ((b, e, g) # ms) = (is_suffix b s \<and> is_suffix e b \<and> in_order e ms)"

text \<open>The characters of \<^verbatim>\<open>[a-zA-Z0-9_]\<close> and the three category tags of the entry pattern.\<close>

definition is_ident :: "char \<Rightarrow> bool" where
  "is_ident c = in_ranges ident_ranges c"

definition tags :: "string list" where
  "tags = [''MULTLINE'', ''OBSOLETE'', ''ONE_LINE'']"

text \<open>The lines of a text, as \<^verbatim>\<open>str.split('\n')\<close> gives them.\<close>

fun split_lines :: "string \<Rightarrow> string list" where
  "split_lines [] = [[]]"
| "split_lines (c # s) =
     (if c = CHR ''\<newline>'' then [] # split_lines s
      else case split_lines s of [] \<Rightarrow> [[c]] | l # ls \<Rightarrow> (c # l) # ls)"

text \<open>More concrete source files and tables: names in mixed case, a table with no entry of the
  three tags, a table that names one command three times, and one line with its match.\<close>

definition mixed_source :: string where
  "mixed_source =
     ''control_cmd_def_t CONTROL_COMMANDS[] = {\<newline>  MULTLINE(GetConf, 0),\<newline>  OBSOLETE(use_Feature9),\<newline>};''"

definition mixed_table :: string where
  "mixed_table = ''  MULTLINE(GetConf, 0),\<newline>  OBSOLETE(use_Feature9),''"

definition other_source :: string where
  "other_source = ''control_cmd_def_t CONTROL_COMMANDS[] = {\<newline>  FOO(bar),\<newline>};''"

definition dup_source :: string where
  "dup_source =
     ''control_cmd_def_t CONTROL_COMMANDS[] = {\<newline>  ONE_LINE(a),\<newline>  MULTLINE(a),\<newline>  ONE_LINE(a),\<newline>};''"

definition dup_table :: string where
  "dup_table = ''  ONE_LINE(a),\<newline>  MULTLINE(a),\<newline>  ONE_LINE(a),''"

definition sample_line :: string where
  "sample_line = ''  ONE_LINE(getinfo, 0),''"

definition sample_match :: match where
  "sample_match = (sample_line, [], [(2, ''getinfo''), (1, ''ONE_LINE'')])"

text \<open>
  The entries of a table without the matcher. \<open>entry_at u\<close> is the entry that starts at the very
  beginning of \<open>u\<close>: one of the three tags, the opening parenthesis and at least one character
  of \<^verbatim>\<open>[a-zA-Z0-9_]\<close>; its name is the longest run of such characters. \<open>last_entry l\<close> is the
  entry that starts at the last position of \<open>l\<close> where one starts. \<open>first\<close> is the head of a list,
  if any.
\<close>

definition first :: "'a list \<Rightarrow> 'a option" where
  "first xs = (case xs of [] \<Rightarrow> None | x # _ \<Rightarrow> Some x)"

definition entry_at :: "string \<Rightarrow> (string \<times> string) option" where
  "entry_at u =
     first (concat (map (\<lambda>t.
       if take (length t + 1) u = t @ ''('' \<and> takeWhile is_ident (drop (length t + 1) u) \<noteq> []
       then [(t, takeWhile is_ident (drop (length t + 1) u))] else []) tags))"

fun last_entry :: "string \<Rightarrow> (string \<times> string) option" where
  "last_entry [] = None"
| "last_entry (c # s) = (case last_entry s of None \<Rightarrow> entry_at (c # s) | Some e \<Rightarrow> Some e)"

text \<open>
  Two more source files: a table whose only line carries the tag \<^verbatim>\<open>NOT_ONE_LINE\<close>, and a table
  with nothing between its braces.
\<close>

definition prefixed_source :: string where
  "prefixed_source = ''control_cmd_def_t CONTROL_COMMANDS[] = {\<newline>  NOT_ONE_LINE(foo),\<newline>};''"

definition empty_source :: string where
  "empty_source = ''control_cmd_def_t CONTROL_COMMANDS[] = {};''"

section \<open>Facts about the matcher\<close>

lemma occurs_in_iff: "occurs_in w s \<longleftrightarrow> (\<exists>a b. s = a @ w @ b)"
proof (induction s)
  case Nil
  then show ?case by auto
next
  case (Cons c s)
  show ?case
  proof
    assume "occurs_in w (c # s)"
    then consider "take (length w) (c # s) = w" | "occurs_in w s" by auto
    then show "\<exists>a b. c # s = a @ w @ b"
    proof cases
      case 1
      then have "c # s = [] @ w @ drop (length w) (c # s)"
        by (metis append_Nil append_take_drop_id)
      then show ?thesis by blast
    next
      case 2
      with Cons obtain a b where "s = a @ w @ b" by auto
      then have "c # s = (c # a) @ w @ b" by simp
      then show ?thesis by blast
    qed
  next
    assume "\<exists>a b. c # s = a @ w @ b"
    then obtain a b where ab: "c # s = a @ w @ b" by auto
    show "occurs_in w (c # s)"
    proof (cases a)
      case Nil
      with ab have "take (length w) (c # s) = w" by simp
      then show ?thesis by simp
    next
      case (Cons x a')
      with ab have "s = a' @ w @ b" by simp
      with Cons.IH show ?thesis by auto
    qed
  qed
qed

lemma occurs_in_part: "occurs_in (u @ w @ v) s \<Longrightarrow> occurs_in w s"
proof -
  assume "occurs_in (u @ w @ v) s"
  then obtain a b where "s = a @ (u @ w @ v) @ b" by (auto simp: occurs_in_iff)
  then have "s = (a @ u) @ w @ (v @ b)" by simp
  then show ?thesis unfolding occurs_in_iff by blast
qed

lemma backtrack_suffix:
  "(s', g') \<in> set (backtrack r (s, g)) \<Longrightarrow> \<exists>w. s = w @ s'"
proof (induction r "(s, g)" arbitrary: s g s' g' rule: backtrack.induct)
  case (1 s g)
  then show ?case by simp
next
  case (2 c s g)
  then show ?case by (auto split: list.splits if_splits)
next
  case (3 neg rs s g)
  then show ?case by (auto split: list.splits if_splits)
next
  case (4 a b s g)
  from "4.prems" obtain s1 g1 where
    m1: "(s1, g1) \<in> set (backtrack a (s, g))" and m2: "(s', g') \<in> set (backtrack b (s1, g1))"
    by auto
  from "4.hyps"(1)[OF m1] "4.hyps"(2)[OF m1 m2] show ?case by (metis append.assoc)
next
  case (5 a b s g)
  then show ?case by auto
next
  case (6 r s g)
  from "6.prems" consider
    (stop) "(s', g') = (s, g)"
  | (more) s1 g1 where "(s1, g1) \<in> set (backtrack r (s, g))" "length s1 < length s"
      "(s', g') \<in> set (backtrack (Star r) (s1, g1))"
    by (subst (asm) backtrack_Star) auto
  then show ?case
  proof cases
    case stop
    then show ?thesis by simp
  next
    case more
    have "(s1, g1) \<in> set (filter (\<lambda>(s', g'). length s' < length s) (backtrack r (s, g)))"
      using more(1,2) by simp
    from "6.hyps"(2)[OF this more(3)] "6.hyps"(1)[OF more(1)] show ?thesis
      by (metis append.assoc)
  qed
next
  case (7 i r s g)
  then show ?case by auto
qed

lemma literal_Cons: "literal (c # w) = Seq (Chr c) (literal w)"
  by (simp add: literal_def)

lemma backtrack_literal:
  "backtrack (literal w) (s, g) = (if take (length w) s = w then [(drop (length w) s, g)] else [])"
proof (induction w arbitrary: s)
  case Nil
  then show ?case by (simp add: literal_def)
next
  case (Cons c w)
  show ?case
  proof (cases s)
    case Nil
    then show ?thesis by (simp add: literal_Cons)
  next
    case (Cons x t)
    then show ?thesis using Cons.IH[of t] by (simp add: literal_Cons)
  qed
qed

lemma seq_list_Cons: "seq_list (r # rs) = Seq r (seq_list rs)"
  by (simp add: seq_list_def)

lemma seq_literal_fail:
  "take (length w) s \<noteq> w \<Longrightarrow> backtrack (Seq (literal w) r) (s, g) = []"
  by (simp add: backtrack_literal)

lemma not_occurs_in_Cons:
  "\<not> occurs_in w (c # s) \<Longrightarrow> take (length w) (c # s) \<noteq> w \<and> \<not> occurs_in w s"
  by simp

lemma not_occurs_in_Nil: "\<not> occurs_in w [] \<Longrightarrow> take (length w) [] \<noteq> w"
  by auto

lemma search_literal_None:
  "\<not> occurs_in w s \<Longrightarrow> re_search (Seq (literal w) r) s = None"
proof (induction s)
  case Nil
  from seq_literal_fail[OF not_occurs_in_Nil[OF Nil]] show ?case
    by (simp del: backtrack.simps)
next
  case (Cons c s)
  from not_occurs_in_Cons[OF Cons.prems]
  have "take (length w) (c # s) \<noteq> w" and "\<not> occurs_in w s" by blast+
  from seq_literal_fail[OF this(1)] Cons.IH[OF this(2)] show ?case
    by (simp del: backtrack.simps)
qed

lemma re_search_table_None:
  "\<not> occurs_in ''control_cmd_def_t CONTROL_COMMANDS[]'' s \<Longrightarrow> re_search table_pattern s = None"
  unfolding table_pattern_def seq_list_Cons by (rule search_literal_None)

lemma table_name_part:
  "''control_cmd_def_t CONTROL_COMMANDS[]'' = ''control_cmd_def_t '' @ ''CONTROL_COMMANDS'' @ ''[]''"
  by simp

lemma no_table_name:
  "\<not> occurs_in ''CONTROL_COMMANDS'' s \<Longrightarrow> re_search table_pattern s = None"
  by (rule re_search_table_None) (metis occurs_in_part table_name_part)

section \<open>The run as a whole\<close>

lemma emit_output: "output_str (emit st tc) = output_str st @ emitted tc"
  by (cases tc) (simp add: emit_def emitted_def Let_def)

lemma foldl_emit: "output_str (foldl emit st xs) = output_str st @ concat (map emitted xs)"
  by (induction xs arbitrary: st) (simp_all add: emit_output)

lemma foldl_record_command:
  "foldl record_command st xs =
     st\<lparr>commands := commands st @ map (\<lambda>(type, command). upper command) xs,
        command_types := command_types st @ map (\<lambda>(type, command). (type, upper command)) xs\<rparr>"
  by (induction xs arbitrary: st) (auto simp: record_command_def)

lemma main_unreadable: "files e source_path = None \<Longrightarrow> main e = (Some OSError, [])"
  by (simp add: main_def)

lemma main_not_found:
  "files e source_path = Some text \<Longrightarrow> control_cmd_def_t text = None \<Longrightarrow>
   main e = (Some AttributeError, [])"
  by (auto simp: main_def control_cmd_def_t_def split: option.splits)

lemma main_found:
  "files e source_path = Some text \<Longrightarrow> control_cmd_def_t text = Some table \<Longrightarrow>
   main e = (None, header (script_file e) @
     concat (map emitted (map (\<lambda>(type, command). (type, upper command))
       (re_findall2 entry_pattern table))) @ ''\<newline>'')"
  by (auto simp: main_def control_cmd_def_t_def Let_def foldl_emit foldl_record_command
      split: option.splits)

lemma scenario_table_found: "control_cmd_def_t scenario_source = Some scenario_table"
  by code_simp

lemma scenario_entries:
  "re_findall2 entry_pattern scenario_table =
     [(''ONE_LINE'', ''GETINFO''), (''MULTLINE'', ''GETCONF''), (''OBSOLETE'', ''POSTDESCRIPTOR'')]"
  by code_simp

lemma scenario_run:
  "main (run_env file (Some scenario_source)) =
     (None, header file @
        ''    public static final String GETINFO = \"GETINFO\";\<newline>'' @
        ''    public static final String GETCONF = \"+GETCONF\";\<newline>'' @
        ''    @Deprecated\<newline>'' @
        ''    public static final String POSTDESCRIPTOR = \"POSTDESCRIPTOR\";\<newline>'' @
        ''\<newline>'')"
proof -
  have "files (run_env file (Some scenario_source)) source_path = Some scenario_source"
    by (simp add: run_env_def)
  from main_found[OF this scenario_table_found] show ?thesis
    by (simp add: scenario_entries emitted_def emit_def constant_line_def upper_def upper_char_def
        run_env_def)
qed

section \<open>Lines, order and shape of the matches\<close>

lemma extend_simp [simp]: "extend t (s, g) = (s @ t, g)"
  by (simp add: extend_def)

lemma backtrack_line:
  "no_newline r \<Longrightarrow>
   backtrack r (l @ CHR ''\<newline>'' # rest, g) = map (extend (CHR ''\<newline>'' # rest)) (backtrack r (l, g))"
proof (induction r "(l, g)" arbitrary: l g rule: backtrack.induct)
  case (1 s g)
  then show ?case by simp
next
  case (2 c s g)
  then show ?case by (cases s) auto
next
  case (3 neg rs s g)
  then show ?case by (cases s) auto
next
  case (4 a b s g)
  let ?f = "extend (CHR ''\<newline>'' # rest)"
  from "4.prems" have na: "no_newline a" and nb: "no_newline b" by simp_all
  have a: "backtrack a (s @ CHR ''\<newline>'' # rest, g) = map ?f (backtrack a (s, g))"
    using "4.hyps"(1)[OF na] .
  have b: "backtrack b (?f x) = map ?f (backtrack b x)" if "x \<in> set (backtrack a (s, g))" for x
  proof -
    obtain s1 g1 where x: "x = (s1, g1)" by (cases x)
    from "4.hyps"(2)[OF that[unfolded x] nb] show ?thesis by (simp add: x)
  qed
  have "backtrack (Seq a b) (s @ CHR ''\<newline>'' # rest, g) =
        concat (map (\<lambda>x. backtrack b (?f x)) (backtrack a (s, g)))"
    by (simp add: a comp_def)
  also have "\<dots> = concat (map (\<lambda>x. map ?f (backtrack b x)) (backtrack a (s, g)))"
    using b by (simp cong: map_cong)
  also have "\<dots> = map ?f (backtrack (Seq a b) (s, g))"
    by (simp add: map_concat comp_def)
  finally show ?case .
next
  case (5 a b s g)
  then show ?case by simp
next
  case (6 r s g)
  let ?f = "extend (CHR ''\<newline>'' # rest)"
  let ?P = "\<lambda>(s', g'). length s' < length s"
  let ?Q = "\<lambda>(s', g'). length s' < Suc (length s + length rest)"
  from "6.prems" have nr: "no_newline r" by simp
  have a: "backtrack r (s @ CHR ''\<newline>'' # rest, g) = map ?f (backtrack r (s, g))"
    using "6.hyps"(1)[OF nr] .
  have fl: "filter ?Q (map ?f xs) = map ?f (filter ?P xs)" for xs
    by (induction xs) auto
  have b: "backtrack (Star r) (?f x) = map ?f (backtrack (Star r) x)"
    if "x \<in> set (filter ?P (backtrack r (s, g)))" for x
  proof -
    obtain s1 g1 where x: "x = (s1, g1)" by (cases x)
    from "6.hyps"(2)[OF that[unfolded x] "6.prems"] show ?thesis by (simp add: x)
  qed
  have "backtrack (Star r) (s @ CHR ''\<newline>'' # rest, g) =
        concat (map (\<lambda>x. backtrack (Star r) (?f x)) (filter ?P (backtrack r (s, g)))) @
          [?f (s, g)]"
    by (subst backtrack_Star) (simp add: a fl comp_def)
  also have "\<dots> = concat (map (\<lambda>x. map ?f (backtrack (Star r) x)) (filter ?P (backtrack r (s, g)))) @
          [?f (s, g)]"
    using map_cong[OF refl b, of "filter ?P (backtrack r (s, g))" "\<lambda>x. x"] by (simp only:)
  also have "\<dots> = map ?f (backtrack (Star r) (s, g))"
    by (subst backtrack_Star) (simp add: map_concat comp_def)
  finally show ?case .
next
  case (7 i r s g)
  let ?f = "extend (CHR ''\<newline>'' # rest)"
  from "7.prems" have nr: "no_newline r" by simp
  have a: "backtrack r (s @ CHR ''\<newline>'' # rest, g) = map ?f (backtrack r (s, g))"
    using "7.hyps"[OF nr] .
  have "(\<lambda>(s', g'). (s', (i, take (length (s @ CHR ''\<newline>'' # rest) - length s')
            (s @ CHR ''\<newline>'' # rest)) # g')) (?f x) =
        ?f ((\<lambda>(s', g'). (s', (i, take (length s - length s') s) # g')) x)"
    if "x \<in> set (backtrack r (s, g))" for x
  proof -
    obtain s1 g1 where x: "x = (s1, g1)" by (cases x)
    from backtrack_length[OF that[unfolded x]] have "length s1 \<le> length s" .
    then show ?thesis by (simp add: x)
  qed
  then show ?case by (simp add: a comp_def cong: map_cong)
qed

lemma extend_match_simp [simp]: "extend_match t (b, e, g) = (b @ t, e @ t, g)"
  by (simp add: extend_match_def)

lemma group_text_extend [simp]: "group_text (extend_match t m) i = group_text m i"
  by (cases m) (simp add: group_text_def group_def)

lemma search_line:
  assumes "no_newline r" and "backtrack r ([], []) = []"
  shows "re_search r (l @ CHR ''\<newline>'' # rest) =
     (case re_search r l of
        None \<Rightarrow> re_search r rest
      | Some m \<Rightarrow> Some (extend_match (CHR ''\<newline>'' # rest) m))"
proof (induction l)
  case Nil
  have "backtrack r ([] @ CHR ''\<newline>'' # rest, []) = []"
    by (simp only: backtrack_line[OF assms(1)] assms(2) list.map)
  with assms(2) show ?case by simp
next
  case (Cons c l)
  have b: "backtrack r ((c # l) @ CHR ''\<newline>'' # rest, []) =
        map (extend (CHR ''\<newline>'' # rest)) (backtrack r (c # l, []))"
    by (rule backtrack_line[OF assms(1)])
  show ?case
  proof (cases "backtrack r (c # l, [])")
    case Nil
    with b Cons show ?thesis by simp
  next
    case (Cons x xs)
    obtain e g where "x = (e, g)" by (cases x)
    with b Cons show ?thesis by simp
  qed
qed

lemma findall_unfold_None: "re_search r s = None \<Longrightarrow> findall_matches r s = []"
  by (subst findall_matches.simps) simp

lemma findall_line:
  "no_newline r \<Longrightarrow> backtrack r ([], []) = [] \<Longrightarrow>
   findall_matches r (l @ CHR ''\<newline>'' # rest) =
     map (extend_match (CHR ''\<newline>'' # rest)) (findall_matches r l) @ findall_matches r rest"
proof (induction r l rule: findall_matches.induct)
  case (1 r s)
  let ?t = "CHR ''\<newline>'' # rest"
  note sl = search_line[OF "1.prems", where l = s and rest = rest]
  show ?case
  proof (cases "re_search r s")
    case None
    then have "re_search r (s @ ?t) = re_search r rest" using sl by simp
    then have "findall_matches r (s @ ?t) = findall_matches r rest"
      by (subst findall_matches.simps, subst (2) findall_matches.simps) simp
    with None show ?thesis by (simp add: findall_unfold_None)
  next
    case (Some m)
    obtain b e g where m: "m = (b, e, g)" by (cases m)
    from Some m have s1: "re_search r s = Some (b, e, g)" by simp
    then have s2: "re_search r (s @ ?t) = Some (b @ ?t, e @ ?t, g)" using sl by simp
    from re_search_length[OF s1] have le: "length e \<le> length b" by simp
    show ?thesis
    proof (cases "length e < length b")
      case True
      from "1.IH"(1)[OF s1 refl refl True "1.prems"]
      have "findall_matches r (e @ ?t) =
            map (extend_match ?t) (findall_matches r e) @ findall_matches r rest" .
      then show ?thesis
        using s1 s2 True
        by (subst findall_matches.simps, subst (2) findall_matches.simps) simp
    next
      case False
      show ?thesis
      proof (cases e)
        case Nil
        then show ?thesis
          using s1 s2 False
          by (subst findall_matches.simps, subst (2) findall_matches.simps) simp
      next
        case (Cons c e')
        from "1.IH"(2)[OF s1 refl refl False Cons "1.prems"]
        have "findall_matches r (e' @ ?t) =
              map (extend_match ?t) (findall_matches r e') @ findall_matches r rest" .
        then show ?thesis
          using s1 s2 False Cons
          by (subst findall_matches.simps, subst (2) findall_matches.simps) simp
      qed
    qed
  qed
qed

lemma findall2_line:
  assumes "no_newline r" and "backtrack r ([], []) = []"
  shows "re_findall2 r (l @ CHR ''\<newline>'' # rest) = re_findall2 r l @ re_findall2 r rest"
  by (simp add: re_findall2_def findall_line[OF assms] comp_def)

lemma entry_pattern_no_newline: "no_newline entry_pattern"
  by (simp add: entry_pattern_def seq_list_def literal_def dot_def ident_def plus_def in_ranges_def ident_ranges_def)

lemma entry_pattern_not_empty: "backtrack entry_pattern ([], []) = []"
  by code_simp

lemmas entries_line = findall2_line[OF entry_pattern_no_newline entry_pattern_not_empty]

lemma is_suffix_iff: "is_suffix t s \<longleftrightarrow> (\<exists>w. s = w @ t)"
proof
  assume "is_suffix t s"
  then have "s = take (length s - length t) s @ t"
    by (metis append_take_drop_id is_suffix_def)
  then show "\<exists>w. s = w @ t" ..
next
  assume "\<exists>w. s = w @ t"
  then show "is_suffix t s" by (auto simp: is_suffix_def)
qed

lemma is_suffix_refl: "is_suffix s s"
  by (simp add: is_suffix_def)

lemma is_suffix_trans: "is_suffix a b \<Longrightarrow> is_suffix b c \<Longrightarrow> is_suffix a c"
  unfolding is_suffix_iff by (metis append.assoc)

lemma is_suffix_Cons: "is_suffix s (c # s)"
  unfolding is_suffix_iff by (metis append_Cons append_Nil)

lemma in_order_mono: "in_order t ms \<Longrightarrow> is_suffix t s \<Longrightarrow> in_order s ms"
  by (cases ms) (auto intro: is_suffix_trans)

lemma re_search_suffix:
  "re_search r s = Some (b, e, g) \<Longrightarrow> is_suffix b s \<and> is_suffix e b"
proof (induction s)
  case Nil
  then obtain ms where "backtrack r ([], []) = (e, g) # ms" "b = []"
    by (auto split: list.splits)
  then have "(e, g) \<in> set (backtrack r ([], []))" by simp
  from backtrack_suffix[OF this] \<open>b = []\<close> show ?case by (simp add: is_suffix_iff)
next
  case (Cons c s)
  show ?case
  proof (cases "backtrack r (c # s, [])")
    case Nil
    with Cons have "is_suffix b s \<and> is_suffix e b" by simp
    then show ?thesis using is_suffix_Cons is_suffix_trans by blast
  next
    case (Cons m ms)
    with Cons.prems have "m = (e, g)" "b = c # s" by (auto split: prod.splits)
    with Cons have "(e, g) \<in> set (backtrack r (c # s, []))" by simp
    from backtrack_suffix[OF this] \<open>b = c # s\<close> show ?thesis
      by (simp add: is_suffix_iff is_suffix_refl)
  qed
qed

lemma findall_in_order: "in_order s (findall_matches r s)"
proof (induction r s rule: findall_matches.induct)
  case (1 r s)
  show ?case
  proof (cases "re_search r s")
    case None
    then show ?thesis by (simp add: findall_unfold_None)
  next
    case (Some m)
    obtain b e g where m: "m = (b, e, g)" by (cases m)
    from Some m have s1: "re_search r s = Some (b, e, g)" by simp
    from re_search_suffix[OF s1] have sf: "is_suffix b s" "is_suffix e b" by simp_all
    show ?thesis
    proof (cases "length e < length b")
      case True
      from "1.IH"(1)[OF s1 refl refl True] sf s1 True show ?thesis
        by (subst findall_matches.simps) simp
    next
      case False
      show ?thesis
      proof (cases e)
        case Nil
        with sf s1 False show ?thesis by (subst findall_matches.simps) simp
      next
        case (Cons c e')
        from "1.IH"(2)[OF s1 refl refl False Cons] have "in_order e' (findall_matches r e')" .
        then have "in_order e (findall_matches r e')"
          using Cons in_order_mono is_suffix_Cons by blast
        with sf s1 False Cons show ?thesis by (subst findall_matches.simps) simp
      qed
    qed
  qed
qed

lemma findall_from_search:
  "m \<in> set (findall_matches r s) \<Longrightarrow> \<exists>s'. re_search r s' = Some m"
proof (induction r s rule: findall_matches.induct)
  case (1 r s)
  show ?case
  proof (cases "re_search r s")
    case None
    with "1.prems" show ?thesis by (simp add: findall_unfold_None)
  next
    case (Some m0)
    obtain b e g where m: "m0 = (b, e, g)" by (cases m0)
    from Some m have s1: "re_search r s = Some (b, e, g)" by simp
    show ?thesis
    proof (cases "m = (b, e, g)")
      case True
      with s1 show ?thesis by blast
    next
      case False
      show ?thesis
      proof (cases "length e < length b")
        case True
        with "1.prems" s1 False have "m \<in> set (findall_matches r e)"
          by (subst (asm) findall_matches.simps) simp
        from "1.IH"(1)[OF s1 refl refl True this] show ?thesis .
      next
        case nl: False
        show ?thesis
        proof (cases e)
          case Nil
          with "1.prems" s1 False nl show ?thesis
            by (subst (asm) findall_matches.simps) simp
        next
          case (Cons c e')
          with "1.prems" s1 False nl have "m \<in> set (findall_matches r e')"
            by (subst (asm) findall_matches.simps) simp
          from "1.IH"(2)[OF s1 refl refl nl Cons this] show ?thesis .
        qed
      qed
    qed
  qed
qed

lemma in_ranges_single: "in_ranges [(a, a)] c \<longleftrightarrow> c = a"
proof -
  have "(of_char a :: nat) = of_char c \<longleftrightarrow> a = c"
    by (metis char_of_char)
  then show ?thesis by (auto simp: in_ranges_def)
qed

lemma backtrack_Eps_any: "backtrack Eps x = [x]"
  by (cases x) simp

lemma star_set_hd:
  "\<exists>xs. backtrack (Star (Set neg rs)) (s, g) = (dropWhile (\<lambda>c. in_ranges rs c \<noteq> neg) s, g) # xs"
proof (induction s)
  case Nil
  show ?case by (subst backtrack_Star) simp
next
  case (Cons c t)
  show ?case
  proof (cases "in_ranges rs c \<noteq> neg")
    case True
    from Cons obtain xs where
      "backtrack (Star (Set neg rs)) (t, g) = (dropWhile (\<lambda>c. in_ranges rs c \<noteq> neg) t, g) # xs"
      by blast
    with True show ?thesis by (subst backtrack_Star) simp
  next
    case False
    then show ?thesis by (subst backtrack_Star) simp
  qed
qed

lemma star_set_mem:
  "(s', g') \<in> set (backtrack (Star (Set neg rs)) (s, g)) \<Longrightarrow>
   g' = g \<and> (\<exists>w. s = w @ s' \<and> (\<forall>c\<in>set w. in_ranges rs c \<noteq> neg))"
proof (induction s)
  case Nil
  then show ?case by (subst (asm) backtrack_Star) simp
next
  case (Cons c t)
  show ?case
  proof (cases "in_ranges rs c \<noteq> neg")
    case True
    with Cons.prems consider "(s', g') = (c # t, g)"
      | "(s', g') \<in> set (backtrack (Star (Set neg rs)) (t, g))"
      by (subst (asm) backtrack_Star) auto
    then show ?thesis
    proof cases
      case 1
      then show ?thesis by simp
    next
      case 2
      from Cons.IH[OF 2] obtain w where
        "g' = g" "t = w @ s'" "\<forall>c\<in>set w. in_ranges rs c \<noteq> neg" by blast
      with True have "c # t = (c # w) @ s' \<and> (\<forall>c\<in>set (c # w). in_ranges rs c \<noteq> neg)" by simp
      with \<open>g' = g\<close> show ?thesis by blast
    qed
  next
    case False
    with Cons.prems show ?thesis by (subst (asm) backtrack_Star) simp
  qed
qed

lemma hd_concat_map:
  "concat (map f xs) = y # ys \<Longrightarrow> \<exists>x\<in>set xs. \<exists>zs. f x = y # zs"
proof (induction xs)
  case Nil
  then show ?case by simp
next
  case (Cons x xs)
  then show ?case by (cases "f x") auto
qed

lemma take_dropWhile: "take (length t - length (dropWhile P t)) t = takeWhile P t"
  by (induction t) (auto simp: Suc_diff_le length_dropWhile_le)

lemma ident_run_hd:
  assumes "is_ident c"
  shows "\<exists>xs. backtrack (Group 2 (plus ident)) (c # t, g) =
     (dropWhile is_ident t, (2, c # takeWhile is_ident t) # g) # xs"
proof -
  have P: "(\<lambda>c. in_ranges ident_ranges c \<noteq> False) = is_ident"
    by (simp add: is_ident_def fun_eq_iff)
  from star_set_hd[of False ident_ranges t g] obtain xs where
    "backtrack (Star ident) (t, g) = (dropWhile is_ident t, g) # xs"
    unfolding ident_def P by blast
  moreover have "backtrack ident (c # t, g) = [(t, g)]"
    using assms by (simp add: ident_def is_ident_def)
  moreover have "Suc (length t) - length (dropWhile is_ident t) =
      Suc (length t - length (dropWhile is_ident t))"
    by (simp add: Suc_diff_le length_dropWhile_le)
  ultimately show ?thesis
    by (simp add: plus_def take_dropWhile)
qed

lemma ident_run_none: "\<not> is_ident c \<Longrightarrow> backtrack (Group 2 (plus ident)) (c # t, g) = []"
  by (simp add: plus_def ident_def is_ident_def)

lemma ident_run_Nil: "backtrack (Group 2 (plus ident)) ([], g) = []"
  by (simp add: plus_def ident_def)

lemma tail_dot_hd:
  "\<exists>xs. backtrack (Seq (Star dot) Eps) (w, g) = (dropWhile (\<lambda>c. c \<noteq> CHR ''\<newline>'') w, g) # xs"
proof -
  have P: "(\<lambda>c. in_ranges [(CHR ''\<newline>'', CHR ''\<newline>'')] c \<noteq> True) = (\<lambda>c. c \<noteq> CHR ''\<newline>'')"
    by (simp add: in_ranges_single fun_eq_iff)
  from star_set_hd[of True "[(CHR ''\<newline>'', CHR ''\<newline>'')]" w g] show ?thesis
    unfolding dot_def P by (auto simp: backtrack_Eps_any)
qed

text \<open>What follows the opening parenthesis: the second group and the rest of the line.\<close>

lemma name_part_hd:
  assumes "backtrack (Seq (Group 2 (plus ident)) (Seq (Star dot) Eps)) (v, g) = (e, g') # ms"
  shows "takeWhile is_ident v \<noteq> [] \<and> g' = (2, takeWhile is_ident v) # g \<and>
         e = dropWhile (\<lambda>c. c \<noteq> CHR ''\<newline>'') (dropWhile is_ident v)"
proof (cases v)
  case Nil
  with assms show ?thesis by (simp add: ident_run_Nil del: backtrack.simps(7))
next
  case (Cons c t)
  show ?thesis
  proof (cases "is_ident c")
    case False
    with assms Cons show ?thesis by (simp add: ident_run_none del: backtrack.simps(7))
  next
    case True
    from ident_run_hd[OF True, of t g] obtain xs where
      r: "backtrack (Group 2 (plus ident)) (c # t, g) =
          (dropWhile is_ident t, (2, c # takeWhile is_ident t) # g) # xs" by blast
    from tail_dot_hd[of "dropWhile is_ident t" "(2, c # takeWhile is_ident t) # g"] obtain ys where
      d: "backtrack (Seq (Star dot) Eps) (dropWhile is_ident t, (2, c # takeWhile is_ident t) # g) =
          (dropWhile (\<lambda>c. c \<noteq> CHR ''\<newline>'') (dropWhile is_ident t), (2, c # takeWhile is_ident t) # g) # ys"
      by blast
    have "backtrack (Seq (Group 2 (plus ident)) (Seq (Star dot) Eps)) (c # t, g) =
        backtrack (Seq (Star dot) Eps) (dropWhile is_ident t, (2, c # takeWhile is_ident t) # g) @
        concat (map (backtrack (Seq (Star dot) Eps)) xs)"
      by (subst backtrack.simps(4)) (simp only: r list.map concat.simps)
    with d assms Cons True show ?thesis by simp
  qed
qed

lemma tag_group:
  assumes "(u1, g1) \<in> set (backtrack (Group 1 (Alt (literal a) (Alt (literal b) (literal c)))) (u, g))"
  shows "\<exists>t\<in>{a, b, c}. take (length t) u = t \<and> u1 = drop (length t) u \<and> g1 = (1, t) # g"
proof -
  have k: "take (length u - (length u - length t)) u = t" if "take (length t) u = t" for t
  proof -
    from that have "length (take (length t) u) = length t" by simp
    then have "length t \<le> length u" by simp
    then have "length u - (length u - length t) = length t" by simp
    with that show ?thesis by simp
  qed
  from assms show ?thesis
    by (auto simp: backtrack_literal k split: if_splits)
qed

lemma re_search_backtrack:
  "re_search r s = Some (b, e, g) \<Longrightarrow> \<exists>ms. backtrack r (b, []) = (e, g) # ms"
proof (induction s)
  case Nil
  then show ?case by (auto split: list.splits)
next
  case (Cons c s)
  then show ?case by (cases "backtrack r (c # s, [])") (auto split: prod.splits)
qed

lemma entry_pattern_unfold:
  "entry_pattern =
     Seq (Star dot)
       (Seq (Group 1 (Alt (literal ''MULTLINE'') (Alt (literal ''OBSOLETE'') (literal ''ONE_LINE''))))
         (Seq (Chr (CHR ''(''))
           (Seq (Group 2 (plus ident)) (Seq (Star dot) Eps))))"
  by (simp add: entry_pattern_def seq_list_def)

lemma entry_hd:
  assumes "backtrack entry_pattern (s, []) = (e, g') # ms"
  shows "\<exists>pre t v. s = pre @ t @ CHR ''('' # v \<and> CHR ''\<newline>'' \<notin> set pre \<and> t \<in> set tags \<and>
           takeWhile is_ident v \<noteq> [] \<and> g' = [(2, takeWhile is_ident v), (1, t)] \<and>
           e = dropWhile (\<lambda>c. c \<noteq> CHR ''\<newline>'') (dropWhile is_ident v)"
proof -
  let ?G1 = "Group 1 (Alt (literal ''MULTLINE'') (Alt (literal ''OBSOLETE'') (literal ''ONE_LINE'')))"
  let ?R2 = "Seq (Group 2 (plus ident)) (Seq (Star dot) Eps)"
  let ?R1 = "Seq (Chr (CHR ''('')) ?R2"
  let ?R = "Seq ?G1 ?R1"
  from assms have "concat (map (backtrack ?R) (backtrack (Star dot) (s, []))) = (e, g') # ms"
    unfolding entry_pattern_unfold by (simp only: backtrack.simps(4))
  from hd_concat_map[OF this] obtain x zs where
    x: "x \<in> set (backtrack (Star dot) (s, []))" and rx: "backtrack ?R x = (e, g') # zs" by blast
  obtain u gu where xu: "x = (u, gu)" by (cases x)
  from star_set_mem[OF x[unfolded xu dot_def]] obtain pre where
    gu: "gu = []" and s: "s = pre @ u" and
    pre: "\<forall>c\<in>set pre. in_ranges [(CHR ''\<newline>'', CHR ''\<newline>'')] c \<noteq> True" by blast
  from pre have nl: "CHR ''\<newline>'' \<notin> set pre" by (auto simp: in_ranges_single)
  from rx xu gu have "concat (map (backtrack ?R1) (backtrack ?G1 (u, []))) = (e, g') # zs"
    by (simp only: backtrack.simps(4))
  from hd_concat_map[OF this] obtain y zs' where
    y: "y \<in> set (backtrack ?G1 (u, []))" and ry: "backtrack ?R1 y = (e, g') # zs'" by blast
  obtain u1 g1 where yu: "y = (u1, g1)" by (cases y)
  from tag_group[OF y[unfolded yu]] obtain t where
    t: "t \<in> {''MULTLINE'', ''OBSOLETE'', ''ONE_LINE''}" and tu: "take (length t) u = t"
    and u1: "u1 = drop (length t) u" and g1: "g1 = [(1, t)]" by blast
  from tu u1 have u: "u = t @ u1" by (metis append_take_drop_id)
  from ry yu have "concat (map (backtrack ?R2) (backtrack (Chr (CHR ''('')) (u1, g1))) = (e, g') # zs'"
    by (simp only: backtrack.simps(4))
  then obtain v where u1v: "u1 = CHR ''('' # v" and rv: "backtrack ?R2 (v, g1) = (e, g') # zs'"
    by (cases u1) (auto split: if_splits)
  from name_part_hd[OF rv] g1 have
    "takeWhile is_ident v \<noteq> []" "g' = [(2, takeWhile is_ident v), (1, t)]"
    "e = dropWhile (\<lambda>c. c \<noteq> CHR ''\<newline>'') (dropWhile is_ident v)" by simp_all
  moreover from s u u1v have "s = pre @ t @ CHR ''('' # v" by simp
  moreover from t have "t \<in> set tags" by (simp add: tags_def)
  ultimately show ?thesis using nl by blast
qed

lemma split_lines_line:
  "CHR ''\<newline>'' \<notin> set l \<Longrightarrow> split_lines (l @ CHR ''\<newline>'' # rest) = l # split_lines rest"
  by (induction l) auto

lemma split_lines_single: "CHR ''\<newline>'' \<notin> set l \<Longrightarrow> split_lines l = [l]"
  by (induction l) auto

lemma entries_by_line:
  "re_findall2 entry_pattern s = concat (map (re_findall2 entry_pattern) (split_lines s))"
proof (induction s rule: length_induct)
  case (1 s)
  show ?case
  proof (cases "CHR ''\<newline>'' \<in> set s")
    case False
    then show ?thesis by (simp add: split_lines_single)
  next
    case True
    from split_list_first[OF True] obtain l rest where
      s: "s = l @ CHR ''\<newline>'' # rest" and l: "CHR ''\<newline>'' \<notin> set l" by blast
    from s have "length rest < length s" by simp
    with 1 have "re_findall2 entry_pattern rest =
        concat (map (re_findall2 entry_pattern) (split_lines rest))" by blast
    then show ?thesis
      unfolding s by (simp add: entries_line split_lines_line[OF l])
  qed
qed

lemma occurs_in_append: "occurs_in w s \<Longrightarrow> occurs_in w (a @ s @ b)"
proof -
  assume "occurs_in w s"
  then obtain x y where "s = x @ w @ y" by (auto simp: occurs_in_iff)
  then have "a @ s @ b = (a @ x) @ w @ (y @ b)" by simp
  then show ?thesis unfolding occurs_in_iff by blast
qed

lemma search_entry_tag:
  assumes "re_search entry_pattern s = Some (b, e, g)"
  shows "\<exists>t\<in>set tags. occurs_in (t @ ''('') s"
proof -
  from re_search_backtrack[OF assms] obtain ms where
    "backtrack entry_pattern (b, []) = (e, g) # ms" by blast
  from entry_hd[OF this] obtain pre t v where
    b: "b = pre @ t @ CHR ''('' # v" and t: "t \<in> set tags" by blast
  from re_search_suffix[OF assms] obtain w where "s = w @ b"
    by (auto simp: is_suffix_iff)
  with b have "s = (w @ pre) @ (t @ ''('') @ v" by simp
  then have "occurs_in (t @ ''('') s" unfolding occurs_in_iff by blast
  with t show ?thesis by blast
qed

lemma no_tag_no_entry:
  assumes "\<not> occurs_in ''MULTLINE('' l" "\<not> occurs_in ''OBSOLETE('' l" "\<not> occurs_in ''ONE_LINE('' l"
  shows "re_findall2 entry_pattern l = []"
proof -
  have "re_search entry_pattern l = None"
  proof (cases "re_search entry_pattern l")
    case None
    then show ?thesis .
  next
    case (Some m)
    obtain b e g where "m = (b, e, g)" by (cases m)
    with Some search_entry_tag[of l b e g] assms show ?thesis by (auto simp: tags_def)
  qed
  then show ?thesis by (simp add: re_findall2_def findall_unfold_None)
qed

lemma findall_entry_shape:
  assumes "m \<in> set (findall_matches entry_pattern s)"
  shows "\<exists>pre rest.
           fst m = pre @ group_text m 1 @ ''('' @ group_text m 2 @ rest
         \<and> CHR ''\<newline>'' \<notin> set pre
         \<and> group_text m 1 \<in> set tags
         \<and> group_text m 2 \<noteq> []
         \<and> group_text m 2 = takeWhile is_ident (group_text m 2 @ rest)
         \<and> fst (snd m) = dropWhile (\<lambda>c. c \<noteq> CHR ''\<newline>'') rest"
proof -
  obtain b e g where m: "m = (b, e, g)" by (cases m)
  from findall_from_search[OF assms] obtain s' where "re_search entry_pattern s' = Some (b, e, g)"
    unfolding m by blast
  from re_search_backtrack[OF this] obtain ms where
    "backtrack entry_pattern (b, []) = (e, g) # ms" by blast
  from entry_hd[OF this] obtain pre t v where
    b: "b = pre @ t @ CHR ''('' # v" and nl: "CHR ''\<newline>'' \<notin> set pre" and t: "t \<in> set tags"
    and x: "takeWhile is_ident v \<noteq> []" and g: "g = [(2, takeWhile is_ident v), (1, t)]"
    and e: "e = dropWhile (\<lambda>c. c \<noteq> CHR ''\<newline>'') (dropWhile is_ident v)" by blast
  have g1: "group_text m 1 = t" and g2: "group_text m 2 = takeWhile is_ident v"
    by (simp_all add: m g group_text_def group_def)
  have "fst m = pre @ group_text m 1 @ ''('' @ group_text m 2 @ dropWhile is_ident v"
    unfolding g1 g2 by (simp add: m b)
  moreover have "group_text m 2 = takeWhile is_ident (group_text m 2 @ dropWhile is_ident v)"
    unfolding g2 by simp
  moreover have "fst (snd m) = dropWhile (\<lambda>c. c \<noteq> CHR ''\<newline>'') (dropWhile is_ident v)"
    by (simp add: m e)
  ultimately show ?thesis using nl t x g1 g2 by metis
qed

lemma emitted_text:
  "emitted (type, name) =
     (if type = ''OBSOLETE'' then ''    @Deprecated\<newline>'' else []) @
     ''    public static final String '' @ name @ '' = \"'' @
     (if type = ''MULTLINE'' then ''+'' else []) @ name @ ''\";\<newline>''"
  by (simp add: emitted_def emit_def constant_line_def)

lemma upper_char_idem: "upper_char (upper_char c) = upper_char c"
proof -
  define n :: nat where "n = of_char c"
  have uc: "upper_char d =
      (if 97 \<le> (of_char d :: nat) \<and> (of_char d :: nat) \<le> 122
       then char_of ((of_char d :: nat) - 32) else d)" for d
    by (simp add: upper_char_def)
  show ?thesis
  proof (cases "97 \<le> n \<and> n \<le> 122")
    case True
    then have 1: "upper_char c = char_of (n - 32)" by (simp add: uc n_def)
    from True have "n - 32 < 256" by arith
    then have 2: "(of_char (char_of (n - 32)) :: nat) = n - 32" by simp
    from True have 3: "\<not> 97 \<le> n - 32" by arith
    have "upper_char (char_of (n - 32)) = char_of (n - 32)"
      unfolding uc 2 using 3 by simp
    with 1 show ?thesis by simp
  next
    case False
    then have "upper_char c = c" unfolding uc n_def by auto
    then show ?thesis by simp
  qed
qed

lemma upper_idem: "upper (upper x) = upper x"
  by (simp add: upper_def upper_char_idem)

lemma in_order_member:
  "in_order s ms \<Longrightarrow> m \<in> set ms \<Longrightarrow> is_suffix (fst m) s"
proof (induction ms arbitrary: s)
  case Nil
  then show ?case by simp
next
  case (Cons x ms)
  obtain b e g where x: "x = (b, e, g)" by (cases x)
  from Cons.prems(1) x have o: "is_suffix b s" "is_suffix e b" "in_order e ms" by simp_all
  show ?case
  proof (cases "m = x")
    case True
    with x o show ?thesis by simp
  next
    case False
    with Cons.prems(2) have "m \<in> set ms" by simp
    from Cons.IH[OF o(3) this] o show ?thesis by (blast intro: is_suffix_trans)
  qed
qed

lemma entries_are_identifiers:
  assumes "(type, x) \<in> set (re_findall2 entry_pattern s)"
  shows "type \<in> set tags \<and> x \<noteq> [] \<and> list_all is_ident x"
proof -
  from assms obtain m where m: "m \<in> set (findall_matches entry_pattern s)"
    and t: "type = group_text m 1" and x: "x = group_text m 2"
    by (auto simp: re_findall2_def)
  from findall_entry_shape[OF m] obtain pre rest where
    "group_text m 1 \<in> set tags" "group_text m 2 \<noteq> []"
    "group_text m 2 = takeWhile is_ident (group_text m 2 @ rest)" by blast
  moreover have "list_all is_ident (takeWhile is_ident ys)" for ys
    by (induction ys) auto
  ultimately show ?thesis unfolding t x by metis
qed

lemma run_env_files: "files (run_env file (Some src)) source_path = Some src"
  by (simp add: run_env_def)

lemma mixed_table_found: "control_cmd_def_t mixed_source = Some mixed_table"
  by code_simp

lemma mixed_entries:
  "re_findall2 entry_pattern mixed_table = [(''MULTLINE'', ''GetConf''), (''OBSOLETE'', ''use_Feature9'')]"
  by code_simp

lemma other_table_found: "control_cmd_def_t other_source = Some ''  FOO(bar),''"
  by code_simp

lemma dup_table_found: "control_cmd_def_t dup_source = Some dup_table"
  by code_simp

lemma dup_entries:
  "re_findall2 entry_pattern dup_table = [(''ONE_LINE'', ''a''), (''MULTLINE'', ''a''), (''ONE_LINE'', ''a'')]"
  by code_simp

lemma sample_matches: "findall_matches entry_pattern sample_line = [sample_match]"
  by code_simp

lemma run_env_script: "script_file (run_env file src) = file"
  by (simp add: run_env_def)

lemma upper_samples:
  "upper ''GetConf'' = ''GETCONF''" "upper ''use_Feature9'' = ''USE_FEATURE9''" "upper ''a'' = ''A''"
  by code_simp+

section \<open>The entries of a line\<close>

lemma first_simps [simp]: "first [] = None" "first (x # xs) = Some x"
  by (simp_all add: first_def)

lemma first_append: "first (xs @ ys) = (case first xs of None \<Rightarrow> first ys | Some x \<Rightarrow> Some x)"
  by (cases xs) simp_all

lemma first_None: "first xs = None \<longleftrightarrow> xs = []"
  by (cases xs) simp_all

lemma name_part_some:
  assumes "is_ident c"
  shows "\<exists>zs. backtrack (Seq (Group 2 (plus ident)) (Seq (Star dot) Eps)) (c # t, g) =
     (dropWhile (\<lambda>c. c \<noteq> CHR ''\<newline>'') (dropWhile is_ident t),
      (2, c # takeWhile is_ident t) # g) # zs"
proof -
  from ident_run_hd[OF assms, of t g] obtain xs where
    r: "backtrack (Group 2 (plus ident)) (c # t, g) =
        (dropWhile is_ident t, (2, c # takeWhile is_ident t) # g) # xs" by blast
  from tail_dot_hd[of "dropWhile is_ident t" "(2, c # takeWhile is_ident t) # g"] obtain ys where
    d: "backtrack (Seq (Star dot) Eps) (dropWhile is_ident t, (2, c # takeWhile is_ident t) # g) =
        (dropWhile (\<lambda>c. c \<noteq> CHR ''\<newline>'') (dropWhile is_ident t), (2, c # takeWhile is_ident t) # g) # ys"
    by blast
  have "backtrack (Seq (Group 2 (plus ident)) (Seq (Star dot) Eps)) (c # t, g) =
      backtrack (Seq (Star dot) Eps) (dropWhile is_ident t, (2, c # takeWhile is_ident t) # g) @
      concat (map (backtrack (Seq (Star dot) Eps)) xs)"
    by (subst backtrack.simps(4)) (simp only: r list.map concat.simps)
  then show ?thesis unfolding d by (simp only: append_Cons) blast
qed

lemma name_part_first:
  "first (backtrack (Seq (Group 2 (plus ident)) (Seq (Star dot) Eps)) (v, g)) =
     (if takeWhile is_ident v = [] then None
      else Some (dropWhile (\<lambda>c. c \<noteq> CHR ''\<newline>'') (dropWhile is_ident v),
                 (2, takeWhile is_ident v) # g))"
proof (cases v)
  case Nil
  then show ?thesis by (simp add: ident_run_Nil del: backtrack.simps(7))
next
  case (Cons c t)
  show ?thesis
  proof (cases "is_ident c")
    case False
    with Cons show ?thesis by (simp add: ident_run_none del: backtrack.simps(7))
  next
    case True
    from name_part_some[OF True, of t g] obtain zs where
      "backtrack (Seq (Group 2 (plus ident)) (Seq (Star dot) Eps)) (c # t, g) =
         (dropWhile (\<lambda>c. c \<noteq> CHR ''\<newline>'') (dropWhile is_ident t),
          (2, c # takeWhile is_ident t) # g) # zs" by blast
    with Cons True show ?thesis by (simp del: backtrack.simps)
  qed
qed

lemma seq_chr:
  "backtrack (Seq (Chr p) r) (w, g) =
     (case w of [] \<Rightarrow> [] | c # v \<Rightarrow> if c = p then backtrack r (v, g) else [])"
  by (cases w) simp_all

lemma group_literal:
  "backtrack (Group i (literal t)) (u, g) =
     (if take (length t) u = t then [(drop (length t) u, (i, t) # g)] else [])"
proof (cases "take (length t) u = t")
  case True
  then have "length (take (length t) u) = length t" by simp
  then have "length t \<le> length u" by simp
  then have "length u - (length u - length t) = length t" by simp
  with True show ?thesis by (simp add: backtrack_literal)
next
  case False
  then show ?thesis by (simp add: backtrack_literal)
qed

lemma group_alt:
  "backtrack (Group i (Alt a b)) (u, g) = backtrack (Group i a) (u, g) @ backtrack (Group i b) (u, g)"
  by simp

lemma prefix_paren:
  "(take (length t) u = t \<and> drop (length t) u = CHR ''('' # v) \<longleftrightarrow>
   (take (length t + 1) u = t @ ''('' \<and> v = drop (length t + 1) u)"
proof
  assume a: "take (length t) u = t \<and> drop (length t) u = CHR ''('' # v"
  then have "u = t @ CHR ''('' # v" by (metis append_take_drop_id)
  then show "take (length t + 1) u = t @ ''('' \<and> v = drop (length t + 1) u" by simp
next
  assume a: "take (length t + 1) u = t @ ''('' \<and> v = drop (length t + 1) u"
  then have "u = (t @ ''('') @ v" by (metis append_take_drop_id)
  then show "take (length t) u = t \<and> drop (length t) u = CHR ''('' # v" by simp
qed

text \<open>One tag tried at the start of \<open>u\<close>, with what follows it in the pattern.\<close>

lemma tag_first:
  "first (concat (map (backtrack (Seq (Chr (CHR ''('')) (Seq (Group 2 (plus ident)) (Seq (Star dot) Eps))))
            (backtrack (Group 1 (literal t)) (u, g)))) =
     (if take (length t + 1) u = t @ ''('' \<and> takeWhile is_ident (drop (length t + 1) u) \<noteq> []
      then Some (dropWhile (\<lambda>c. c \<noteq> CHR ''\<newline>'') (dropWhile is_ident (drop (length t + 1) u)),
                 (2, takeWhile is_ident (drop (length t + 1) u)) # (1, t) # g)
      else None)"
proof (cases "take (length t) u = t")
  case False
  then have "take (length t + 1) u \<noteq> t @ ''(''" using prefix_paren by blast
  with False show ?thesis by (simp only: group_literal if_False list.map concat.simps first_simps) simp
next
  case True
  show ?thesis
  proof (cases "drop (length t) u")
    case Nil
    then have "take (length t + 1) u \<noteq> t @ ''(''" using prefix_paren[of t u] by auto
    with True Nil show ?thesis
      by (simp only: group_literal seq_chr if_True list.map concat.simps list.case append_Nil2 first_simps) simp
  next
    case (Cons c v)
    show ?thesis
    proof (cases "c = CHR ''(''")
      case False
      with Cons have "take (length t + 1) u \<noteq> t @ ''(''" using prefix_paren[of t u] by auto
      with True Cons False show ?thesis
        by (simp only: group_literal seq_chr if_True if_False list.map concat.simps list.case
            append_Nil2 first_simps) simp
    next
      case p: True
      let ?R2 = "Seq (Group 2 (plus ident)) (Seq (Star dot) Eps)"
      from True Cons p have tp: "take (length t + 1) u = t @ ''(''" and v: "v = drop (length t + 1) u"
        using prefix_paren[of t u v] by auto
      have 1: "backtrack (Group 1 (literal t)) (u, g) = [(CHR ''('' # v, (1, t) # g)]"
        using True Cons p by (simp add: group_literal del: backtrack.simps)
      have 2: "backtrack (Seq (Chr (CHR ''('')) ?R2) (CHR ''('' # v, (1, t) # g) =
          backtrack ?R2 (v, (1, t) # g)"
        by (simp add: seq_chr del: backtrack.simps)
      have 3: "concat (map (backtrack (Seq (Chr (CHR ''('')) ?R2))
            (backtrack (Group 1 (literal t)) (u, g))) = backtrack ?R2 (v, (1, t) # g)"
        unfolding 1 by (simp only: list.map concat.simps append_Nil2 2)
      show ?thesis unfolding 3 name_part_first using tp v by simp
    qed
  qed
qed

lemma tags_first:
  fixes a b c :: string
  defines "R1 \<equiv> Seq (Chr (CHR ''('')) (Seq (Group 2 (plus ident)) (Seq (Star dot) Eps))"
  defines "hit \<equiv> \<lambda>u t. take (length t + 1) u = t @ ''('' \<and>
                     takeWhile is_ident (drop (length t + 1) u) \<noteq> []"
  shows "first (backtrack (Seq (Group 1 (Alt (literal a) (Alt (literal b) (literal c)))) R1) (u, g)) =
     map_option (\<lambda>(t, x).
         (dropWhile (\<lambda>c. c \<noteq> CHR ''\<newline>'') (dropWhile is_ident (drop (length t + 1) u)),
          (2, x) # (1, t) # g))
       (first (concat (map (\<lambda>t.
          if hit u t then [(t, takeWhile is_ident (drop (length t + 1) u))] else []) [a, b, c])))"
proof -
  have split: "backtrack (Seq (Group 1 (Alt (literal a) (Alt (literal b) (literal c)))) R1) (u, g) =
      concat (map (backtrack R1) (backtrack (Group 1 (literal a)) (u, g))) @
      concat (map (backtrack R1) (backtrack (Group 1 (literal b)) (u, g))) @
      concat (map (backtrack R1) (backtrack (Group 1 (literal c)) (u, g)))"
    by (simp only: backtrack.simps(4) group_alt map_append concat_append)
  have one: "first (concat (map (backtrack R1) (backtrack (Group 1 (literal t)) (u, g)))) =
      (if hit u t
       then Some (dropWhile (\<lambda>c. c \<noteq> CHR ''\<newline>'') (dropWhile is_ident (drop (length t + 1) u)),
                  (2, takeWhile is_ident (drop (length t + 1) u)) # (1, t) # g)
       else None)" for t
    unfolding R1_def hit_def by (rule tag_first)
  show ?thesis
    unfolding split first_append one
    by (cases "hit u a"; cases "hit u b"; cases "hit u c") simp_all
qed

lemma entry_rest_first:
  "first (backtrack
     (Seq (Group 1 (Alt (literal ''MULTLINE'') (Alt (literal ''OBSOLETE'') (literal ''ONE_LINE''))))
        (Seq (Chr (CHR ''('')) (Seq (Group 2 (plus ident)) (Seq (Star dot) Eps)))) (u, g)) =
   map_option (\<lambda>(t, x).
       (dropWhile (\<lambda>c. c \<noteq> CHR ''\<newline>'') (dropWhile is_ident (drop (length t + 1) u)),
        (2, x) # (1, t) # g))
     (entry_at u)"
  unfolding entry_at_def tags_def by (rule tags_first)

lemma star_dot_Nil: "backtrack (Star dot) ([], g) = [([], g)]"
  by (subst backtrack_Star) (simp add: dot_def)

lemma star_dot_Cons:
  "c \<noteq> CHR ''\<newline>'' \<Longrightarrow>
   backtrack (Star dot) (c # t, g) = backtrack (Star dot) (t, g) @ [(c # t, g)]"
  by (subst backtrack_Star) (simp add: dot_def in_ranges_single)

lemma entry_at_Nil: "entry_at [] = None"
  by (simp add: entry_at_def tags_def)

lemma dropWhile_line:
  "CHR ''\<newline>'' \<notin> set s \<Longrightarrow>
   dropWhile (\<lambda>c. c \<noteq> CHR ''\<newline>'') (dropWhile P (drop n s)) = []"
proof -
  assume "CHR ''\<newline>'' \<notin> set s"
  moreover have "set (dropWhile P (drop n s)) \<subseteq> set s"
    by (meson set_dropWhileD set_drop_subset subsetI subsetD)
  ultimately have "\<forall>c\<in>set (dropWhile P (drop n s)). c \<noteq> CHR ''\<newline>''" by blast
  then show ?thesis by (simp add: dropWhile_eq_Nil_conv)
qed

lemma line_first:
  "CHR ''\<newline>'' \<notin> set s \<Longrightarrow>
   first (backtrack entry_pattern (s, [])) =
     map_option (\<lambda>(t, x). ([], [(2, x), (1, t)])) (last_entry s)"
proof (induction s)
  case Nil
  have "first (backtrack entry_pattern ([], [])) = None"
    by (simp add: entry_pattern_not_empty)
  then show ?case by simp
next
  case (Cons c s)
  let ?R = "Seq (Group 1 (Alt (literal ''MULTLINE'') (Alt (literal ''OBSOLETE'') (literal ''ONE_LINE''))))
        (Seq (Chr (CHR ''('')) (Seq (Group 2 (plus ident)) (Seq (Star dot) Eps)))"
  from Cons.prems have c: "c \<noteq> CHR ''\<newline>''" and s: "CHR ''\<newline>'' \<notin> set s" by auto
  have u: "backtrack entry_pattern (x, []) = concat (map (backtrack ?R) (backtrack (Star dot) (x, [])))" for x
    unfolding entry_pattern_unfold by (simp only: backtrack.simps(4))
  have "backtrack entry_pattern (c # s, []) =
      backtrack entry_pattern (s, []) @ backtrack ?R (c # s, [])"
    unfolding u star_dot_Cons[OF c] by (simp only: map_append concat_append list.map concat.simps append_Nil2)
  then have "first (backtrack entry_pattern (c # s, [])) =
      (case first (backtrack entry_pattern (s, [])) of
         None \<Rightarrow> first (backtrack ?R (c # s, [])) | Some y \<Rightarrow> Some y)"
    by (simp only: first_append)
  also have "first (backtrack ?R (c # s, [])) =
      map_option (\<lambda>(t, x). ([], [(2, x), (1, t)])) (entry_at (c # s))"
    unfolding entry_rest_first dropWhile_line[OF Cons.prems] ..
  finally show ?case
    unfolding Cons.IH[OF s] by (cases "last_entry s") simp_all
qed

lemma first_Some: "first xs = Some x \<Longrightarrow> \<exists>ys. xs = x # ys"
  by (cases xs) simp_all

lemma last_entry_tail: "last_entry (c # s) = None \<Longrightarrow> last_entry s = None"
  by (cases "last_entry s") simp_all

lemma search_on_line:
  "CHR ''\<newline>'' \<notin> set l \<Longrightarrow>
   re_search entry_pattern l =
     map_option (\<lambda>(t, x). (l, [], [(2, x), (1, t)])) (last_entry l)"
proof (induction l)
  case Nil
  then show ?case by (simp add: entry_pattern_not_empty)
next
  case (Cons c s)
  from Cons.prems have s: "CHR ''\<newline>'' \<notin> set s" by simp
  note f = line_first[OF Cons.prems]
  show ?case
  proof (cases "last_entry (c # s)")
    case None
    with f have "backtrack entry_pattern (c # s, []) = []" by (simp add: first_None)
    moreover from last_entry_tail[OF None] Cons.IH[OF s] have "re_search entry_pattern s = None" by simp
    ultimately show ?thesis using None by (simp del: last_entry.simps)
  next
    case (Some e)
    obtain t x where e: "e = (t, x)" by (cases e)
    from f Some e have "first (backtrack entry_pattern (c # s, [])) = Some ([], [(2, x), (1, t)])"
      by simp
    from first_Some[OF this] obtain ys where
      "backtrack entry_pattern (c # s, []) = ([], [(2, x), (1, t)]) # ys" by blast
    with Some e show ?thesis by (simp del: last_entry.simps)
  qed
qed

lemma last_entry_Nil_text: "last_entry l = Some e \<Longrightarrow> l \<noteq> []"
  by (cases l) simp_all

lemma line_entries:
  assumes "CHR ''\<newline>'' \<notin> set l"
  shows "re_findall2 entry_pattern l = (case last_entry l of None \<Rightarrow> [] | Some e \<Rightarrow> [e])"
proof (cases "last_entry l")
  case None
  with search_on_line[OF assms] have "re_search entry_pattern l = None" by simp
  with None show ?thesis by (simp add: re_findall2_def findall_unfold_None)
next
  case (Some e)
  obtain t x where e: "e = (t, x)" by (cases e)
  from search_on_line[OF assms] Some e
  have r: "re_search entry_pattern l = Some (l, [], [(2, x), (1, t)])" by simp
  have n: "re_search entry_pattern [] = None" by (simp add: entry_pattern_not_empty)
  from last_entry_Nil_text[OF Some] have "length ([] :: string) < length l" by simp
  then have "findall_matches entry_pattern l = [(l, [], [(2, x), (1, t)])]"
    by (subst findall_matches.simps) (simp add: r findall_unfold_None[OF n])
  with Some e show ?thesis by (simp add: re_findall2_def group_text_def group_def)
qed

lemma split_lines_no_newline: "l \<in> set (split_lines s) \<Longrightarrow> CHR ''\<newline>'' \<notin> set l"
proof (induction s arbitrary: l)
  case Nil
  then show ?case by simp
next
  case (Cons c s)
  show ?case
  proof (cases "c = CHR ''\<newline>''")
    case True
    with Cons show ?thesis by auto
  next
    case False
    show ?thesis
    proof (cases "split_lines s")
      case Nil
      with Cons.prems False show ?thesis by simp
    next
      case (Cons l0 ls)
      with Cons.prems False have "l = c # l0 \<or> l \<in> set ls" by simp
      with Cons Cons.IH False show ?thesis by auto
    qed
  qed
qed

lemma table_entries:
  "re_findall2 entry_pattern s = List.map_filter last_entry (split_lines s)"
proof -
  have "concat (map (re_findall2 entry_pattern) ls) = List.map_filter last_entry ls"
    if "\<forall>l\<in>set ls. CHR ''\<newline>'' \<notin> set l" for ls
    using that
  proof (induction ls)
    case Nil
    then show ?case by (simp add: map_filter_simps)
  next
    case (Cons l ls)
    then show ?case by (cases "last_entry l") (simp_all add: line_entries map_filter_simps)
  qed
  then show ?thesis using entries_by_line split_lines_no_newline by metis
qed

section \<open>Facts about the run on bytes\<close>

lemma output_text_cases:
  "(file_bytes w source_path = None \<and> output_text w = (Some OSError, []))
   \<or> (\<exists>bs. file_bytes w source_path = Some bs \<and> decode w bs = None
         \<and> output_text w = (Some UnicodeDecodeError, []))
   \<or> (\<exists>bs src. file_bytes w source_path = Some bs \<and> decode w bs = Some src
         \<and> control_cmd_def_t src = None \<and> output_text w = (Some AttributeError, []))
   \<or> (\<exists>bs src table. file_bytes w source_path = Some bs \<and> decode w bs = Some src
         \<and> control_cmd_def_t src = Some table
         \<and> output_text w = (None, header (script w) @
              concat (map emitted (map (\<lambda>(type, command). (type, upper command))
                (re_findall2 entry_pattern table))) @ ''\<newline>''))"
proof (cases "file_bytes w source_path")
  case None
  then show ?thesis by (simp add: output_text_def)
next
  case (Some bs)
  note b = this
  show ?thesis
  proof (cases "decode w bs")
    case None
    with b show ?thesis by (simp add: output_text_def)
  next
    case (Some src)
    note d = this
    have o: "output_text w = main (run_env (script w) (Some src))"
      using b d by (simp add: output_text_def)
    show ?thesis
    proof (cases "control_cmd_def_t src")
      case None
      from main_not_found[OF run_env_files None] o b d None show ?thesis by simp
    next
      case (Some table)
      from main_found[OF run_env_files Some] o b d Some show ?thesis
        by (simp add: run_env_script)
    qed
  qed
qed

lemma machine_simps:
  "script (machine file bs dec enc) = file"
  "file_bytes (machine file bs dec enc) source_path = Some bs"
  "decode (machine file bs dec enc) = dec"
  "encode (machine file bs dec enc) = enc"
  by (simp_all add: machine_def)

lemma scenario_decoded:
  "decode_latin1 scenario_source = Some scenario_source"
  "decode_ascii scenario_source = Some scenario_source"
  by code_simp+

lemma accented_decoded:
  "decode_latin1 accented_source = Some accented_source"
  "decode_ascii accented_source = None"
  by code_simp+

lemma accented_table_found: "control_cmd_def_t accented_source = Some scenario_table"
  by code_simp

lemma scenario_output_text:
  "dec scenario_source = Some scenario_source \<Longrightarrow>
   output_text (machine file scenario_source dec enc) = (None, scenario_output file)"
  by (simp add: output_text_def machine_simps scenario_run header_def scenario_output_def)

lemma accented_run:
  "main (run_env f (Some accented_source)) = (None, scenario_output f)"
  using main_found[OF run_env_files[of f] accented_table_found]
  by (simp add: scenario_entries emitted_def emit_def constant_line_def upper_def upper_char_def
        run_env_script header_def scenario_output_def)

lemma ascii_paths:
  "encode_ascii (scenario_output ''gen.py'') = Some (scenario_output ''gen.py'')"
  "encode_ascii (scenario_output accented_path) = None"
  by code_simp+

section \<open>The claims\<close>

lemma header_differs: "f \<noteq> f' \<Longrightarrow> header f @ body \<noteq> header f' @ body"
  by (simp add: header_def)

text \<open>
  C1: the second loop follows the category mapping. For every state and every name, an
  entry tagged \<^verbatim>\<open>OBSOLETE\<close> appends the line \<^verbatim>\<open>    @Deprecated\<close> and right after it the declaration
  of the constant \<open>name\<close> whose string value is the bare name; an entry tagged \<^verbatim>\<open>MULTLINE\<close>
  appends the declaration whose value is the name prefixed with \<^verbatim>\<open>+\<close>; an entry tagged
  \<^verbatim>\<open>ONE_LINE\<close> appends the declaration whose value is the bare name. On the source file whose
  table holds \<^verbatim>\<open>ONE_LINE(GETINFO)\<close>, \<^verbatim>\<open>MULTLINE(GETCONF)\<close>, \<^verbatim>\<open>OBSOLETE(POSTDESCRIPTOR)\<close> the run
  prints the header, then the three declarations in that order, the last one after its
  deprecation marker.
\<close>

theorem emit_category_mapping:
  "output_str (emit st (''OBSOLETE'', name)) =
     output_str st @ ''    @Deprecated\<newline>'' @
       ''    public static final String '' @ name @ '' = \"'' @ name @ ''\";\<newline>''
   \<and> output_str (emit st (''MULTLINE'', name)) =
     output_str st @ ''    public static final String '' @ name @ '' = \"+'' @ name @ ''\";\<newline>''
   \<and> output_str (emit st (''ONE_LINE'', name)) =
     output_str st @ ''    public static final String '' @ name @ '' = \"'' @ name @ ''\";\<newline>''
   \<and> main (run_env ''gen.py'' (Some scenario_source)) =
     (None,
      ''\<newline>    // generated by gen.py\<newline>'' @
      ''    public static final String GETINFO = \"GETINFO\";\<newline>'' @
      ''    public static final String GETCONF = \"+GETCONF\";\<newline>'' @
      ''    @Deprecated\<newline>'' @
      ''    public static final String POSTDESCRIPTOR = \"POSTDESCRIPTOR\";\<newline>'' @
      ''\<newline>'')"
proof -
  have obsolete: "output_str (emit st (''OBSOLETE'', name)) =
     output_str st @ ''    @Deprecated\<newline>'' @
       ''    public static final String '' @ name @ '' = \"'' @ name @ ''\";\<newline>''"
    by (simp add: emit_def constant_line_def)
  have multline: "output_str (emit st (''MULTLINE'', name)) =
     output_str st @ ''    public static final String '' @ name @ '' = \"+'' @ name @ ''\";\<newline>''"
    by (simp add: emit_def constant_line_def)
  have one_line: "output_str (emit st (''ONE_LINE'', name)) =
     output_str st @ ''    public static final String '' @ name @ '' = \"'' @ name @ ''\";\<newline>''"
    by (simp add: emit_def constant_line_def)
  have scenario: "main (run_env ''gen.py'' (Some scenario_source)) =
     (None,
      ''\<newline>    // generated by gen.py\<newline>'' @
      ''    public static final String GETINFO = \"GETINFO\";\<newline>'' @
      ''    public static final String GETCONF = \"+GETCONF\";\<newline>'' @
      ''    @Deprecated\<newline>'' @
      ''    public static final String POSTDESCRIPTOR = \"POSTDESCRIPTOR\";\<newline>'' @
      ''\<newline>'')"
    by (simp add: scenario_run header_def)
  from obsolete multline one_line scenario show ?thesis by (simp only: simp_thms)
qed

text \<open>
  C2: when the table is found, the matches of the entry pattern lie in the table text one
  after the other (each starts where the one before it ended or later), and the output is the
  header followed by the lines of the first match, then those of the second, and so on: one
  group of lines per match, in the order of the matches, and nothing else but the final
  newline of \<^verbatim>\<open>print\<close>. The lines of a match are those that one pass of the second loop appends
  for its tag and its upper-cased name.
\<close>

theorem declarations_in_table_order:
  assumes "files e source_path = Some src" and "control_cmd_def_t src = Some table"
  shows "in_order table (findall_matches entry_pattern table)
       \<and> main e =
           (None,
            header (script_file e) @
            concat (map (\<lambda>m. emitted (group_text m 1, upper (group_text m 2)))
              (findall_matches entry_pattern table)) @
            ''\<newline>'')"
proof -
  have "map emitted (map (\<lambda>(type, command). (type, upper command))
          (re_findall2 entry_pattern table)) =
        map (\<lambda>m. emitted (group_text m 1, upper (group_text m 2)))
          (findall_matches entry_pattern table)"
    by (simp add: re_findall2_def comp_def)
  with main_found[OF assms] findall_in_order[of table entry_pattern] show ?thesis by simp
qed

theorem declarations_in_table_order_witness:
  "files (run_env ''gen.py'' (Some scenario_source)) source_path = Some scenario_source
   \<and> control_cmd_def_t scenario_source = Some scenario_table
   \<and> in_order scenario_table (findall_matches entry_pattern scenario_table)
   \<and> main (run_env ''gen.py'' (Some scenario_source)) =
       (None,
        ''\<newline>    // generated by gen.py\<newline>'' @
        ''    public static final String GETINFO = \"GETINFO\";\<newline>'' @
        ''    public static final String GETCONF = \"+GETCONF\";\<newline>'' @
        ''    @Deprecated\<newline>'' @
        ''    public static final String POSTDESCRIPTOR = \"POSTDESCRIPTOR\";\<newline>'' @
        ''\<newline>'')"
proof -
  note t = declarations_in_table_order[OF run_env_files scenario_table_found, of "''gen.py''"]
  from t have "in_order scenario_table (findall_matches entry_pattern scenario_table)" by blast
  then show ?thesis
    by (simp add: run_env_files scenario_table_found scenario_run header_def)
qed

text \<open>
  C3: (as amended) when the source text has no occurrence of the table name
  \<^verbatim>\<open>CONTROL_COMMANDS\<close>, \<^verbatim>\<open>re.search\<close> returns \<^verbatim>\<open>None\<close>, the call \<^verbatim>\<open>m.group(1)\<close> raises
  \<^verbatim>\<open>AttributeError\<close>, and nothing is printed. The script has no error of its own for a table
  that is not found.
\<close>

theorem missing_table_is_attribute_error:
  assumes "files e source_path = Some text" and "\<not> occurs_in ''CONTROL_COMMANDS'' text"
  shows "main e = (Some AttributeError, [])"
proof -
  from assms(2) have "re_search table_pattern text = None" by (rule no_table_name)
  then have "control_cmd_def_t text = None" by (simp add: control_cmd_def_t_def)
  with assms(1) show ?thesis by (rule main_not_found)
qed

theorem missing_table_is_attribute_error_witness:
  "files (run_env ''gen.py'' (Some ''int x;'')) source_path = Some ''int x;''
   \<and> \<not> occurs_in ''CONTROL_COMMANDS'' ''int x;''
   \<and> main (run_env ''gen.py'' (Some ''int x;'')) = (Some AttributeError, [])"
  using missing_table_is_attribute_error[of "run_env ''gen.py'' (Some ''int x;'')" "''int x;''"]
  by (simp add: run_env_def)

text \<open>On the source text \<^verbatim>\<open>int x;\<close> the run ends with \<^verbatim>\<open>AttributeError\<close>.\<close>

theorem missing_table_counterexample:
  "fst (main (run_env ''gen.py'' (Some ''int x;''))) = Some AttributeError"
  by code_simp

text \<open>
  C4: when the table is found, every item \<open>(type, x)\<close> that \<^verbatim>\<open>re.findall\<close> returns, whatever
  the case of the letters of \<open>x\<close>, gives a declaration whose identifier is \<open>upper x\<close> and whose
  string value is \<open>upper x\<close>, after \<^verbatim>\<open>+\<close> when the tag is \<^verbatim>\<open>MULTLINE\<close>. Every such \<open>x\<close> is a
  non-empty text of characters of \<^verbatim>\<open>[a-zA-Z0-9_]\<close>, and \<open>upper x\<close> is in upper case already.
\<close>

theorem names_are_upper_cased:
  assumes "files e source_path = Some src" and "control_cmd_def_t src = Some table"
  shows "main e =
           (None,
            header (script_file e) @
            concat (map (\<lambda>(type, x).
                (if type = ''OBSOLETE'' then ''    @Deprecated\<newline>'' else []) @
                ''    public static final String '' @ upper x @ '' = \"'' @
                (if type = ''MULTLINE'' then ''+'' else []) @ upper x @ ''\";\<newline>'')
              (re_findall2 entry_pattern table)) @
            ''\<newline>'')
       \<and> (\<forall>(type, x)\<in>set (re_findall2 entry_pattern table).
            x \<noteq> [] \<and> list_all is_ident x \<and> upper (upper x) = upper x)"
proof -
  have eq: "map (\<lambda>(type, x).
                (if type = ''OBSOLETE'' then ''    @Deprecated\<newline>'' else []) @
                ''    public static final String '' @ upper x @ '' = \"'' @
                (if type = ''MULTLINE'' then ''+'' else []) @ upper x @ ''\";\<newline>'') xs =
        map emitted (map (\<lambda>(type, command). (type, upper command)) xs)" for xs
    by (induction xs) (auto simp: emitted_text)
  have "main e =
           (None,
            header (script_file e) @
            concat (map (\<lambda>(type, x).
                (if type = ''OBSOLETE'' then ''    @Deprecated\<newline>'' else []) @
                ''    public static final String '' @ upper x @ '' = \"'' @
                (if type = ''MULTLINE'' then ''+'' else []) @ upper x @ ''\";\<newline>'')
              (re_findall2 entry_pattern table)) @
            ''\<newline>'')"
    unfolding eq by (rule main_found[OF assms])
  moreover have "\<forall>(type, x)\<in>set (re_findall2 entry_pattern table).
            x \<noteq> [] \<and> list_all is_ident x \<and> upper (upper x) = upper x"
    using entries_are_identifiers upper_idem by blast
  ultimately show ?thesis by blast
qed

theorem names_are_upper_cased_witness:
  "files (run_env ''gen.py'' (Some mixed_source)) source_path = Some mixed_source
   \<and> control_cmd_def_t mixed_source = Some mixed_table
   \<and> re_findall2 entry_pattern mixed_table =
       [(''MULTLINE'', ''GetConf''), (''OBSOLETE'', ''use_Feature9'')]
   \<and> main (run_env ''gen.py'' (Some mixed_source)) =
       (None,
        ''\<newline>    // generated by gen.py\<newline>'' @
        ''    public static final String GETCONF = \"+GETCONF\";\<newline>'' @
        ''    @Deprecated\<newline>'' @
        ''    public static final String USE_FEATURE9 = \"USE_FEATURE9\";\<newline>'' @
        ''\<newline>'')"
proof -
  note t = names_are_upper_cased[OF run_env_files mixed_table_found, of "''gen.py''"]
  from t have "main (run_env ''gen.py'' (Some mixed_source)) =
       (None,
        ''\<newline>    // generated by gen.py\<newline>'' @
        ''    public static final String GETCONF = \"+GETCONF\";\<newline>'' @
        ''    @Deprecated\<newline>'' @
        ''    public static final String USE_FEATURE9 = \"USE_FEATURE9\";\<newline>'' @
        ''\<newline>'')"
    by (simp add: mixed_entries upper_samples header_def run_env_script)
  then show ?thesis by (simp add: run_env_files mixed_table_found mixed_entries)
qed

text \<open>
  C5: (as amended) a part \<open>l\<close> of the table in which none of the texts \<^verbatim>\<open>MULTLINE(\<close>,
  \<^verbatim>\<open>OBSOLETE(\<close>, \<^verbatim>\<open>ONE_LINE(\<close> occurs (a line with another tag that does not end in one of the
  three, a comment, an empty line) yields no entry and raises nothing: the entries of the table
  are those of the table without \<open>l\<close>, whether \<open>l\<close> stands between two lines, first or last. When
  the table pattern matches (it asks for at least one character other than \<^verbatim>\<open>}\<close> between the
  braces) and the table holds no entry at all, the run ends without an error and prints the
  header only.
\<close>

theorem unrecognized_lines_are_skipped:
  "(\<not> occurs_in ''MULTLINE('' l \<and> \<not> occurs_in ''OBSOLETE('' l \<and> \<not> occurs_in ''ONE_LINE('' l \<longrightarrow>
      re_findall2 entry_pattern l = []
    \<and> re_findall2 entry_pattern (a @ CHR ''\<newline>'' # l @ CHR ''\<newline>'' # b) =
        re_findall2 entry_pattern (a @ CHR ''\<newline>'' # b)
    \<and> re_findall2 entry_pattern (l @ CHR ''\<newline>'' # b) = re_findall2 entry_pattern b
    \<and> re_findall2 entry_pattern (a @ CHR ''\<newline>'' # l) = re_findall2 entry_pattern a)
   \<and> (files e source_path = Some src \<and> control_cmd_def_t src = Some table \<and>
      re_findall2 entry_pattern table = [] \<longrightarrow>
        main e = (None, header (script_file e) @ ''\<newline>''))"
proof -
  have "main e = (None, header (script_file e) @ ''\<newline>'')"
    if "files e source_path = Some src" "control_cmd_def_t src = Some table"
      "re_findall2 entry_pattern table = []"
    using main_found[OF that(1,2)] that(3) by simp
  moreover have "re_findall2 entry_pattern l = []
    \<and> re_findall2 entry_pattern (a @ CHR ''\<newline>'' # l @ CHR ''\<newline>'' # b) =
        re_findall2 entry_pattern (a @ CHR ''\<newline>'' # b)
    \<and> re_findall2 entry_pattern (l @ CHR ''\<newline>'' # b) = re_findall2 entry_pattern b
    \<and> re_findall2 entry_pattern (a @ CHR ''\<newline>'' # l) = re_findall2 entry_pattern a"
    if "\<not> occurs_in ''MULTLINE('' l" "\<not> occurs_in ''OBSOLETE('' l" "\<not> occurs_in ''ONE_LINE('' l"
  proof -
    from no_tag_no_entry[OF that] have n: "re_findall2 entry_pattern l = []" .
    then show ?thesis by (simp add: entries_line)
  qed
  ultimately show ?thesis by blast
qed

theorem unrecognized_lines_are_skipped_witness:
  "\<not> occurs_in ''MULTLINE('' ''  /* FOO(bar) */''
   \<and> \<not> occurs_in ''OBSOLETE('' ''  /* FOO(bar) */''
   \<and> \<not> occurs_in ''ONE_LINE('' ''  /* FOO(bar) */''
   \<and> re_findall2 entry_pattern
        (''ONE_LINE(a)'' @ CHR ''\<newline>'' # ''  /* FOO(bar) */'' @ CHR ''\<newline>'' # ''MULTLINE(b)'') =
      re_findall2 entry_pattern (''ONE_LINE(a)'' @ CHR ''\<newline>'' # ''MULTLINE(b)'')
   \<and> files (run_env ''gen.py'' (Some other_source)) source_path = Some other_source
   \<and> control_cmd_def_t other_source = Some ''  FOO(bar),''
   \<and> re_findall2 entry_pattern ''  FOO(bar),'' = []
   \<and> main (run_env ''gen.py'' (Some other_source)) = (None, ''\<newline>    // generated by gen.py\<newline>\<newline>'')"
proof -
  have n: "\<not> occurs_in ''MULTLINE('' ''  /* FOO(bar) */''"
    "\<not> occurs_in ''OBSOLETE('' ''  /* FOO(bar) */''"
    "\<not> occurs_in ''ONE_LINE('' ''  /* FOO(bar) */''"
    by code_simp+
  have e: "re_findall2 entry_pattern ''  FOO(bar),'' = []" by code_simp
  note t1 = unrecognized_lines_are_skipped[of "''  /* FOO(bar) */''" "''ONE_LINE(a)''" "''MULTLINE(b)''"
      "run_env ''gen.py'' (Some other_source)" other_source "''  FOO(bar),''"]
  from t1 n have s: "re_findall2 entry_pattern
        (''ONE_LINE(a)'' @ CHR ''\<newline>'' # ''  /* FOO(bar) */'' @ CHR ''\<newline>'' # ''MULTLINE(b)'') =
      re_findall2 entry_pattern (''ONE_LINE(a)'' @ CHR ''\<newline>'' # ''MULTLINE(b)'')" by blast
  from t1 run_env_files other_table_found e
  have m: "main (run_env ''gen.py'' (Some other_source)) =
      (None, header (script_file (run_env ''gen.py'' (Some other_source))) @ ''\<newline>'')" by blast
  from m have m': "main (run_env ''gen.py'' (Some other_source)) =
      (None, ''\<newline>    // generated by gen.py\<newline>\<newline>'')"
    by (simp add: header_def run_env_script)
  from n s e m' run_env_files other_table_found show ?thesis by blast
qed

text \<open>
  The pattern looks for the three tags anywhere in a line, so the line \<^verbatim>\<open>NOT_ONE_LINE(foo),\<close>,
  whose tag is none of the three, is declared as the constant \<^verbatim>\<open>FOO\<close>. And the table pattern does
  not match a table with nothing between its braces: on \<^verbatim>\<open>CONTROL_COMMANDS[] = {};\<close> the run ends
  with \<^verbatim>\<open>AttributeError\<close> and prints nothing.
\<close>

theorem permissive_extraction_counterexample:
  "main (run_env ''gen.py'' (Some prefixed_source)) =
     (None,
      ''\<newline>    // generated by gen.py\<newline>'' @
      ''    public static final String FOO = \"FOO\";\<newline>'' @
      ''\<newline>'')
   \<and> main (run_env ''gen.py'' (Some empty_source)) = (Some AttributeError, [])"
proof -
  have a: "main (run_env ''gen.py'' (Some prefixed_source)) =
     (None,
      ''\<newline>    // generated by gen.py\<newline>    public static final String FOO = \"FOO\";\<newline>\<newline>'')"
    by code_simp
  have b: "main (run_env ''gen.py'' (Some empty_source)) = (Some AttributeError, [])"
    by code_simp
  from a b show ?thesis by simp
qed

text \<open>
  C6: the entries of a table are the entries of its lines, line after line: what one part
  of the table yields does not depend on what another part holds, so a name that comes again,
  under the same tag or another, is listed again. A line yields the entry that starts last in
  it, if one starts in it (the pattern begins with a greedy \<^verbatim>\<open>.*\<close>): that is the entry the
  pattern recognizes. When the table is found, the output holds the lines of every entry of
  every line, in this order; nothing is compared or removed.
\<close>

theorem duplicates_are_kept:
  assumes "files e source_path = Some src" and "control_cmd_def_t src = Some table"
  shows "re_findall2 entry_pattern (a @ CHR ''\<newline>'' # b) =
           re_findall2 entry_pattern a @ re_findall2 entry_pattern b
       \<and> re_findall2 entry_pattern table = List.map_filter last_entry (split_lines table)
       \<and> main e =
           (None,
            header (script_file e) @
            concat (map (\<lambda>l. concat (map (\<lambda>(type, x). emitted (type, upper x))
                (re_findall2 entry_pattern l))) (split_lines table)) @
            ''\<newline>'')"
proof -
  have "concat (map emitted (map (\<lambda>(type, command). (type, upper command)) (concat xss))) =
        concat (map (\<lambda>xs. concat (map (\<lambda>(type, x). emitted (type, upper x)) xs)) xss)" for xss
    by (induction xss) (simp_all add: comp_def case_prod_beta)
  from this[of "map (re_findall2 entry_pattern) (split_lines table)"]
  have "concat (map emitted (map (\<lambda>(type, command). (type, upper command))
          (re_findall2 entry_pattern table))) =
        concat (map (\<lambda>l. concat (map (\<lambda>(type, x). emitted (type, upper x))
          (re_findall2 entry_pattern l))) (split_lines table))"
    by (simp add: entries_by_line[symmetric] comp_def)
  with main_found[OF assms] entries_line[of a b] table_entries[of table] show ?thesis by simp
qed

theorem duplicates_are_kept_witness:
  "files (run_env ''gen.py'' (Some dup_source)) source_path = Some dup_source
   \<and> control_cmd_def_t dup_source = Some dup_table
   \<and> split_lines dup_table = [''  ONE_LINE(a),'', ''  MULTLINE(a),'', ''  ONE_LINE(a),'']
   \<and> main (run_env ''gen.py'' (Some dup_source)) =
       (None,
        ''\<newline>    // generated by gen.py\<newline>'' @
        ''    public static final String A = \"A\";\<newline>'' @
        ''    public static final String A = \"+A\";\<newline>'' @
        ''    public static final String A = \"A\";\<newline>'' @
        ''\<newline>'')"
proof -
  note t = duplicates_are_kept[OF run_env_files dup_table_found, of "[]" "[]" "''gen.py''"]
  have r: "main (run_env ''gen.py'' (Some dup_source)) =
       (None,
        ''\<newline>    // generated by gen.py\<newline>'' @
        ''    public static final String A = \"A\";\<newline>'' @
        ''    public static final String A = \"+A\";\<newline>'' @
        ''    public static final String A = \"A\";\<newline>'' @
        ''\<newline>'')"
    using main_found[OF run_env_files dup_table_found, of "''gen.py''"]
    by (simp add: dup_entries emitted_text upper_samples header_def run_env_script)
  have l: "split_lines dup_table = [''  ONE_LINE(a),'', ''  MULTLINE(a),'', ''  ONE_LINE(a),'']"
    by (simp add: dup_table_def)
  from t r l run_env_files dup_table_found show ?thesis by blast
qed

text \<open>
  C7: a run that ends with an error prints nothing. When the source file cannot be opened
  the run ends with \<^verbatim>\<open>OSError\<close>, when the table is not located it ends with \<^verbatim>\<open>AttributeError\<close>,
  and in both cases the standard output stays empty; whenever something is printed, the run
  ended without an error, the file was read and the table was located.
\<close>

theorem no_partial_output:
  "(files e source_path = None \<longrightarrow> main e = (Some OSError, []))
   \<and> (\<forall>text. files e source_path = Some text \<and> control_cmd_def_t text = None \<longrightarrow>
          main e = (Some AttributeError, []))
   \<and> (fst (main e) \<noteq> None \<longrightarrow> snd (main e) = [])
   \<and> (snd (main e) \<noteq> [] \<longrightarrow>
        fst (main e) = None \<and>
        (\<exists>text table. files e source_path = Some text \<and> control_cmd_def_t text = Some table))"
proof (cases "files e source_path")
  case None
  then show ?thesis by (simp add: main_unreadable)
next
  case (Some src)
  show ?thesis
  proof (cases "control_cmd_def_t src")
    case None
    with Some show ?thesis by (simp add: main_not_found)
  next
    case (Some table)
    with \<open>files e source_path = Some src\<close> show ?thesis by (simp add: main_found)
  qed
qed

theorem no_partial_output_witness:
  "files (run_env ''gen.py'' None) source_path = None
   \<and> main (run_env ''gen.py'' None) = (Some OSError, [])
   \<and> files (run_env ''gen.py'' (Some ''int x;'')) source_path = Some ''int x;''
   \<and> control_cmd_def_t ''int x;'' = None
   \<and> fst (main (run_env ''gen.py'' (Some ''int x;''))) \<noteq> None
   \<and> snd (main (run_env ''gen.py'' (Some ''int x;''))) = []
   \<and> snd (main (run_env ''gen.py'' (Some scenario_source))) \<noteq> []
   \<and> fst (main (run_env ''gen.py'' (Some scenario_source))) = None"
proof -
  have n: "control_cmd_def_t ''int x;'' = None" by code_simp
  have f: "files (run_env ''gen.py'' (Some ''int x;'')) source_path = Some ''int x;''"
    by (simp add: run_env_def)
  show ?thesis
    using no_partial_output[of "run_env ''gen.py'' None"]
      no_partial_output[of "run_env ''gen.py'' (Some ''int x;'')"]
      no_partial_output[of "run_env ''gen.py'' (Some scenario_source)"] n f
    by (simp add: run_env_def scenario_run[unfolded run_env_def])
qed

text \<open>
  C8: (as amended) take two runs whose source files hold the same bytes, that decode these
  bytes the same way, and whose standard outputs encode the text that the first run prints the
  same way. The text handed to \<^verbatim>\<open>print\<close> is the same in both runs exactly when they were started
  through the same script path or the run ends with an error before \<^verbatim>\<open>print\<close>; and in these
  two cases the runs end the same way and write the same bytes. Nothing else in the
  surroundings of a run has a part in its result.
\<close>

theorem same_path_and_codecs_same_output:
  assumes bytes: "file_bytes w1 source_path = file_bytes w2 source_path"
      and dec: "\<And>bs. file_bytes w1 source_path = Some bs \<Longrightarrow> decode w1 bs = decode w2 bs"
      and enc: "\<And>out. output_text w1 = (None, out) \<Longrightarrow> encode w1 out = encode w2 out"
  shows "(output_text w1 = output_text w2 \<longleftrightarrow> script w1 = script w2 \<or> fst (output_text w1) \<noteq> None)
       \<and> (script w1 = script w2 \<or> fst (output_text w1) \<noteq> None \<longrightarrow> run w1 = run w2)"
proof -
  have a: "output_text w1 = output_text w2 \<longleftrightarrow> script w1 = script w2 \<or> fst (output_text w1) \<noteq> None"
    using output_text_cases[of w1] output_text_cases[of w2] bytes dec header_differs
    by (elim disjE exE conjE) auto
  have "run w1 = run w2" if "script w1 = script w2 \<or> fst (output_text w1) \<noteq> None"
  proof -
    from that a have e: "output_text w2 = output_text w1" by simp
    show ?thesis
    proof (cases "output_text w1")
      case (Pair err out)
      show ?thesis
      proof (cases err)
        case None
        with Pair enc[of out] e show ?thesis by (simp add: run_def)
      next
        case (Some x)
        with Pair e show ?thesis by (simp add: run_def)
      qed
    qed
  qed
  with a show ?thesis by blast
qed

theorem same_path_and_codecs_same_output_witness:
  "file_bytes (machine ''gen.py'' scenario_source decode_ascii encode_ascii) source_path =
     file_bytes (machine ''gen.py'' scenario_source decode_latin1 encode_latin1) source_path
   \<and> decode_ascii scenario_source = decode_latin1 scenario_source
   \<and> output_text (machine ''gen.py'' scenario_source decode_ascii encode_ascii) =
       (None, scenario_output ''gen.py'')
   \<and> encode_ascii (scenario_output ''gen.py'') = encode_latin1 (scenario_output ''gen.py'')
   \<and> run (machine ''gen.py'' scenario_source decode_ascii encode_ascii) =
       run (machine ''gen.py'' scenario_source decode_latin1 encode_latin1)
   \<and> run (machine ''gen.py'' scenario_source decode_ascii encode_ascii) =
       (None, scenario_output ''gen.py'')"
proof -
  let ?w1 = "machine ''gen.py'' scenario_source decode_ascii encode_ascii"
  let ?w2 = "machine ''gen.py'' scenario_source decode_latin1 encode_latin1"
  have b: "file_bytes ?w1 source_path = file_bytes ?w2 source_path"
    by (simp add: machine_simps)
  have d: "decode ?w1 bs = decode ?w2 bs" if "file_bytes ?w1 source_path = Some bs" for bs
    using that by (simp add: machine_simps scenario_decoded)
  have o: "output_text ?w1 = (None, scenario_output ''gen.py'')"
    by (simp add: scenario_output_text scenario_decoded)
  have e: "encode ?w1 out = encode ?w2 out" if "output_text ?w1 = (None, out)" for out
  proof -
    from that o have "out = scenario_output ''gen.py''" by simp
    then show ?thesis by (simp add: machine_simps ascii_paths encode_latin1_def)
  qed
  note t = same_path_and_codecs_same_output[of ?w1 ?w2, OF b d e]
  from t have r: "run ?w1 = run ?w2" by (simp add: machine_simps)
  have r1: "run ?w1 = (None, scenario_output ''gen.py'')"
    by (simp add: run_def o machine_simps ascii_paths)
  from b r r1 o show ?thesis
    by (simp add: scenario_decoded ascii_paths encode_latin1_def)
qed

text \<open>
  Three pairs of runs on source files of the same bytes that do not write the same bytes. The
  script started as \<^verbatim>\<open>gen.py\<close> and as \<^verbatim>\<open>./gen.py\<close>: the header lines differ. A source file with
  the byte \<^verbatim>\<open>0xE9\<close> in a comment, read as \<^verbatim>\<open>latin-1\<close> and as \<^verbatim>\<open>ascii\<close>: the first run prints the
  declarations, the second ends with \<^verbatim>\<open>UnicodeDecodeError\<close>. A script path with the character
  \<^verbatim>\<open>0xE9\<close>, printed to a standard output in \<^verbatim>\<open>latin-1\<close> and in \<^verbatim>\<open>ascii\<close>: the first run prints, the
  second ends with \<^verbatim>\<open>UnicodeEncodeError\<close>.
\<close>

theorem same_bytes_other_output_counterexample:
  "run (machine ''gen.py'' scenario_source decode_latin1 encode_latin1) =
     (None, scenario_output ''gen.py'')
   \<and> run (machine ''./gen.py'' scenario_source decode_latin1 encode_latin1) =
     (None, scenario_output ''./gen.py'')
   \<and> scenario_output ''gen.py'' \<noteq> scenario_output ''./gen.py''
   \<and> run (machine ''gen.py'' accented_source decode_latin1 encode_latin1) =
     (None, scenario_output ''gen.py'')
   \<and> run (machine ''gen.py'' accented_source decode_ascii encode_latin1) =
     (Some UnicodeDecodeError, [])
   \<and> run (machine accented_path scenario_source decode_latin1 encode_latin1) =
     (None, scenario_output accented_path)
   \<and> run (machine accented_path scenario_source decode_latin1 encode_ascii) =
     (Some UnicodeEncodeError, [])"
proof -
  have o: "output_text (machine f scenario_source decode_latin1 enc) = (None, scenario_output f)"
    for f enc
    by (simp add: scenario_output_text scenario_decoded)
  have a: "output_text (machine f accented_source decode_latin1 enc) = (None, scenario_output f)"
    for f enc
    by (simp add: output_text_def machine_simps accented_decoded accented_run)
  have u: "output_text (machine f accented_source decode_ascii enc) = (Some UnicodeDecodeError, [])"
    for f enc
    by (simp add: output_text_def machine_simps accented_decoded)
  have n: "scenario_output ''gen.py'' \<noteq> scenario_output ''./gen.py''"
    by (simp add: scenario_output_def)
  from n show ?thesis
    by (simp add: run_def o a u machine_simps encode_latin1_def ascii_paths)
qed

text \<open>
  C9: every match of the entry pattern lies in the searched text and has this shape: some
  characters of the same line, the tag (group 1, one of the three), the opening parenthesis,
  the name (group 2) and a rest. The name is not empty and is the longest run of characters of
  \<^verbatim>\<open>[a-zA-Z0-9_]\<close> after the parenthesis: \<^const>\<open>takeWhile\<close> over the name and the rest gives the name.
  The rest, up to the end of the line, belongs to the match and to no group.
\<close>

theorem captured_identifier_is_maximal_run:
  assumes "m \<in> set (findall_matches entry_pattern s)"
  shows "is_suffix (fst m) s
       \<and> (\<exists>pre rest.
             fst m = pre @ group_text m 1 @ ''('' @ group_text m 2 @ rest
           \<and> CHR ''\<newline>'' \<notin> set pre
           \<and> group_text m 1 \<in> set tags
           \<and> group_text m 2 \<noteq> []
           \<and> group_text m 2 = takeWhile is_ident (group_text m 2 @ rest)
           \<and> fst (snd m) = dropWhile (\<lambda>c. c \<noteq> CHR ''\<newline>'') rest)"
  using in_order_member[OF findall_in_order assms] findall_entry_shape[OF assms] by blast

theorem captured_identifier_is_maximal_run_witness:
  "sample_match \<in> set (findall_matches entry_pattern sample_line)
   \<and> group_text sample_match 1 = ''ONE_LINE''
   \<and> group_text sample_match 2 = ''getinfo''
   \<and> is_suffix (fst sample_match) sample_line
   \<and> (\<exists>pre rest.
         fst sample_match = pre @ group_text sample_match 1 @ ''('' @ group_text sample_match 2 @ rest
       \<and> CHR ''\<newline>'' \<notin> set pre
       \<and> group_text sample_match 1 \<in> set tags
       \<and> group_text sample_match 2 \<noteq> []
       \<and> group_text sample_match 2 = takeWhile is_ident (group_text sample_match 2 @ rest)
       \<and> fst (snd sample_match) = dropWhile (\<lambda>c. c \<noteq> CHR ''\<newline>'') rest)"
proof -
  have m: "sample_match \<in> set (findall_matches entry_pattern sample_line)"
    by (simp add: sample_matches)
  have g: "group_text sample_match 1 = ''ONE_LINE''" "group_text sample_match 2 = ''getinfo''"
    by (simp_all add: sample_match_def group_text_def group_def)
  from captured_identifier_is_maximal_run[OF m] m g show ?thesis by blast
qed



end
